theory Spec2Isabelle
  imports Main
begin

section \<open>Data model\<close>

text \<open>
  The batch orchestration engine of the service: the \<open>BatchTracker\<close> and \<open>AiSummaries\<close>
  collections, the webhook services, the audio dispatcher and the batch timeout service.
  Documents are records, collections are lists in insertion order, and every asynchronous
  function is a function from the state of the system to a result and a new state.
\<close>

datatype status =
  Pending | Partial_complete | Complete | Audio_requested | Audio_complete | Audio_failed | Failed

text \<open>\<open>IBatchTracker\<close> (models/batchTracker.ts). Dates are milliseconds.\<close>

record batchTracker =
  batchId :: string
  expectedCount :: nat
  receivedCount :: nat
  status :: status
  createdAt :: nat
  partialCompletedAt :: "nat option"
  completedAt :: "nat option"
  audioRequestedAt :: "nat option"
  audioCompletedAt :: "nat option"
  audioFailedAt :: "nat option"
  timeoutAt :: nat
  userIds :: "string list"
  audioUrl :: "string option"
  failureReason :: "string option"

text \<open>A document of the \<open>AiSummaries\<close> collection (one unit of a batch).\<close>

record aiSummary =
  summaryId :: nat
  userId :: string
  summary :: string
  summaryType :: string
  summaryTitle :: string
  summaryBatchId :: "string option"
  isAudioGenerated :: bool
  summaryAudioUrl :: "string option"

text \<open>A document of the \<open>UserMixes\<close> collection.\<close>

record userMix =
  mixAudioUrl :: string
  mixUserId :: string
  mixName :: string
  mixIcon :: string
  mixType :: string

text \<open>The body of one \<open>POST /generate-audio\<close> request to the audio worker.\<close>

record audioRequest =
  reqBatchId :: string
  reqSummaryId :: nat
  reqUserId :: string
  reqSummary :: string
  reqSummaryType :: string
  reqSummaryTitle :: string
  reqTimestamp :: nat

text \<open>
  The state of the system. \<open>faults\<close> is the outcome of the coming store operations, one
  entry for each, \<open>True\<close> when that operation is going to fail; with no entry left the
  store works. \<open>sent\<close> is the list of requests posted to the audio worker, and
  \<open>transitions\<close> the list of the changes of a batch's \<open>status\<close> field (batch id, old
  status, new status), both in the order they happened. Logger output is not part of the
  state.
\<close>

record sys =
  batches :: "batchTracker list"
  summaries :: "aiSummary list"
  mixes :: "userMix list"
  nextId :: nat
  now :: nat
  faults :: "bool list"
  sent :: "audioRequest list"
  transitions :: "(string \<times> status \<times> status) list"

datatype error = DbError | ValidationError | SummaryNotFound

section \<open>Promises: results, exceptions and the state\<close>

type_synonym 'a io = "sys \<Rightarrow> (error + 'a) \<times> sys"

definition ret :: "'a \<Rightarrow> 'a io" where
  "ret x s = (Inr x, s)"

definition throw :: "error \<Rightarrow> 'a io" where
  "throw e s = (Inl e, s)"

text \<open>\<open>await m\<close> followed by \<open>f\<close>: an exception of \<open>m\<close> skips \<open>f\<close>.\<close>

definition andThen :: "'a io \<Rightarrow> ('a \<Rightarrow> 'b io) \<Rightarrow> 'b io" where
  "andThen m f s = (case m s of (Inl e, s') \<Rightarrow> (Inl e, s') | (Inr x, s') \<Rightarrow> f x s')"

text \<open>\<open>try { m } catch (error) { h error }\<close>.\<close>

definition tryCatch :: "'a io \<Rightarrow> (error \<Rightarrow> 'a io) \<Rightarrow> 'a io" where
  "tryCatch m h s = (case m s of (Inl e, s') \<Rightarrow> h e s' | (Inr x, s') \<Rightarrow> (Inr x, s'))"

text \<open>A handler that logs and returns.\<close>

definition logOnly :: "error \<Rightarrow> unit io" where
  "logOnly e = ret ()"

section \<open>The store\<close>

text \<open>One round trip to the store: it fails when the next entry of \<open>faults\<close> says so.\<close>

definition storeCall :: "(sys \<Rightarrow> 'a \<times> sys) \<Rightarrow> 'a io" where
  "storeCall f s =
     (case faults s of
        [] \<Rightarrow> (case f s of (x, s') \<Rightarrow> (Inr x, s'))
      | flt # rest \<Rightarrow>
          if flt then (Inl DbError, s\<lparr>faults := rest\<rparr>)
          else (case f (s\<lparr>faults := rest\<rparr>) of (x, s') \<Rightarrow> (Inr x, s')))"

fun updFirst :: "('a \<Rightarrow> bool) \<Rightarrow> ('a \<Rightarrow> 'a) \<Rightarrow> 'a list \<Rightarrow> 'a list" where
  "updFirst P f [] = []"
| "updFirst P f (x # xs) = (if P x then f x # xs else x # updFirst P f xs)"

text \<open>
  \<open>BatchTracker.findOneAndUpdate(filter, update)\<close>: the first document that matches is
  updated, atomically, and returned as updated (\<open>null\<close>, here \<open>None\<close>, when none matches).
  The update is built by the caller, who reads the clock for the dates in it.
\<close>

definition batchFindOneAndUpdate ::
  "(batchTracker \<Rightarrow> bool) \<Rightarrow> (nat \<Rightarrow> batchTracker \<Rightarrow> batchTracker) \<Rightarrow> batchTracker option io" where
  "batchFindOneAndUpdate P u =
     storeCall (\<lambda>s.
       (case find P (batches s) of
          None \<Rightarrow> (None, s)
        | Some b \<Rightarrow>
            (Some (u (now s) b),
             s\<lparr>batches := updFirst P (u (now s)) (batches s),
               transitions := transitions s @
                 (if status (u (now s) b) = status b then []
                  else [(batchId b, status b, status (u (now s) b))])\<rparr>)))"

definition batchFindOne :: "(batchTracker \<Rightarrow> bool) \<Rightarrow> batchTracker option io" where
  "batchFindOne P = storeCall (\<lambda>s. (find P (batches s), s))"

definition batchFind :: "(batchTracker \<Rightarrow> bool) \<Rightarrow> batchTracker list io" where
  "batchFind P = storeCall (\<lambda>s. (filter P (batches s), s))"

definition summaryCountDocuments :: "(aiSummary \<Rightarrow> bool) \<Rightarrow> nat io" where
  "summaryCountDocuments P = storeCall (\<lambda>s. (length (filter P (summaries s)), s))"

definition summaryFind :: "(aiSummary \<Rightarrow> bool) \<Rightarrow> aiSummary list io" where
  "summaryFind P = storeCall (\<lambda>s. (filter P (summaries s), s))"

definition summaryFindOneAndUpdate ::
  "(aiSummary \<Rightarrow> bool) \<Rightarrow> (aiSummary \<Rightarrow> aiSummary) \<Rightarrow> aiSummary option io" where
  "summaryFindOneAndUpdate P u =
     storeCall (\<lambda>s.
       (case find P (summaries s) of
          None \<Rightarrow> (None, s)
        | Some x \<Rightarrow> (Some (u x), s\<lparr>summaries := updFirst P u (summaries s)\<rparr>)))"

text \<open>
  \<open>AiSummaries.create\<close>: the schema is validated before the document is written.
  \<open>userId\<close> and \<open>summary\<close> are required: a missing one is the empty string here, which
  the schema refuses as it refuses a missing or null required field. \<open>summaryType\<close> and
  \<open>summaryTitle\<close> are required and have a default: when the field is missing (\<open>None\<close>)
  the document gets the default, \<open>user\<close> and \<open>Daily Mix\<close>; when it is given it must not be
  empty (or null, which the empty string stands for), and \<open>summaryType\<close> must be in the
  enum.
\<close>

definition validSummary :: "string \<Rightarrow> string \<Rightarrow> string option \<Rightarrow> string option \<Rightarrow> bool" where
  "validSummary text uid stype title \<longleftrightarrow>
     text \<noteq> [] \<and> uid \<noteq> [] \<and>
     (case stype of None \<Rightarrow> True | Some t \<Rightarrow> t = ''user'' \<or> t = ''category'') \<and>
     (case title of None \<Rightarrow> True | Some t \<Rightarrow> t \<noteq> [])"

definition summaryCreate ::
  "string \<Rightarrow> string \<Rightarrow> string option \<Rightarrow> string option \<Rightarrow> string option \<Rightarrow> aiSummary io" where
  "summaryCreate text uid stype title bid =
     (if \<not> validSummary text uid stype title then throw ValidationError
      else storeCall (\<lambda>s.
        (let doc = \<lparr>summaryId = nextId s, userId = uid, summary = text,
                    summaryType = (case stype of None \<Rightarrow> ''user'' | Some t \<Rightarrow> t),
                    summaryTitle = (case title of None \<Rightarrow> ''Daily Mix'' | Some t \<Rightarrow> t),
                    summaryBatchId = bid, isAudioGenerated = False,
                    summaryAudioUrl = None\<rparr>
         in (doc, s\<lparr>summaries := summaries s @ [doc], nextId := nextId s + 1\<rparr>))))"

definition mixCreate :: "userMix \<Rightarrow> userMix io" where
  "mixCreate m = storeCall (\<lambda>s. (m, s\<lparr>mixes := mixes s @ [m]\<rparr>))"

section \<open>The dispatcher (AudioGenerationService)\<close>

text \<open>\<open>sendIndividualSummaryForAudio\<close>: the request is posted and not awaited.\<close>

definition sendIndividualSummaryForAudio :: "aiSummary \<Rightarrow> string \<Rightarrow> sys \<Rightarrow> sys" where
  "sendIndividualSummaryForAudio x bid s =
     s\<lparr>sent := sent s @
        [\<lparr>reqBatchId = bid, reqSummaryId = summaryId x, reqUserId = userId x,
          reqSummary = summary x, reqSummaryType = summaryType x,
          reqSummaryTitle = summaryTitle x, reqTimestamp = now s\<rparr>]\<rparr>"

definition delay :: "nat \<Rightarrow> sys \<Rightarrow> sys" where
  "delay ms s = s\<lparr>now := now s + ms\<rparr>"

text \<open>The loop of \<open>triggerAudioGeneration\<close>: one second between two requests.\<close>

fun sendAll :: "aiSummary list \<Rightarrow> string \<Rightarrow> sys \<Rightarrow> sys" where
  "sendAll [] bid s = s"
| "sendAll [x] bid s = sendIndividualSummaryForAudio x bid s"
| "sendAll (x # y # ys) bid s =
     sendAll (y # ys) bid (delay 1000 (sendIndividualSummaryForAudio x bid s))"

definition audioProcessed :: "status \<Rightarrow> bool" where
  "audioProcessed st \<longleftrightarrow> st = Audio_requested \<or> st = Audio_complete \<or> st = Audio_failed"

definition triggerAudioGeneration :: "string \<Rightarrow> unit io" where
  "triggerAudioGeneration bid =
     tryCatch
       (andThen (batchFindOne (\<lambda>b. batchId b = bid)) (\<lambda>batchStatus.
          if (case batchStatus of None \<Rightarrow> False | Some b \<Rightarrow> audioProcessed (status b))
          then ret ()
          else
            andThen (summaryFind (\<lambda>x. summaryBatchId x = Some bid \<and> \<not> isAudioGenerated x))
              (\<lambda>found.
                if found = [] then ret ()
                else
                  andThen (summaryCountDocuments (\<lambda>x. summaryBatchId x = Some bid))
                    (\<lambda>totalSummaries. (\<lambda>s. (Inr (), sendAll found bid s))))))
       throw"

text \<open>
  The two writes that follow a dispatch decision, which the source spells out at each
  place: they name the batch only, not the status it is expected to have.
\<close>

definition markAudioRequested :: "string \<Rightarrow> unit io" where
  "markAudioRequested bid =
     andThen (batchFindOneAndUpdate
                (\<lambda>b. batchId b = bid)
                (\<lambda>t b. b\<lparr>status := Audio_requested, audioRequestedAt := Some t\<rparr>))
       (\<lambda>_. ret ())"

definition markAudioComplete :: "string \<Rightarrow> unit io" where
  "markAudioComplete bid =
     andThen (batchFindOneAndUpdate
                (\<lambda>b. batchId b = bid)
                (\<lambda>t b. b\<lparr>status := Audio_complete, audioCompletedAt := Some t\<rparr>))
       (\<lambda>_. ret ())"

section \<open>The webhook services\<close>

text \<open>
  \<open>Date.getHours\<close> gives the hour in the time zone of the server: the clock of the state
  counts the milliseconds of that local time.
\<close>

definition getHours :: "nat \<Rightarrow> nat" where
  "getHours t = (t div 3600000) mod 24"

definition getMixInfoByTimeOfDay :: "sys \<Rightarrow> string \<times> string" where
  "getMixInfoByTimeOfDay s =
     (let hours = getHours (now s) in
      if 5 \<le> hours \<and> hours < 12 then (''Your Morning Mix'', ''morning'')
      else if 12 \<le> hours \<and> hours < 18 then (''Your Afternoon Mix'', ''afternoon'')
      else if 18 \<le> hours \<and> hours < 23 then (''Your Evening Mix'', ''evening'')
      else (''Your Night Mix'', ''night''))"

text \<open>A string of a request body is falsy when it is missing or empty.\<close>

definition truthy :: "string option \<Rightarrow> bool" where
  "truthy x = (case x of None \<Rightarrow> False | Some v \<Rightarrow> v \<noteq> [])"

text \<open>
  \<open>completionPercentage >= 50\<close>, where \<open>completionPercentage = (receivedCount /
  expectedCount) * 100\<close>: the quotient is taken exactly, which is what the floating point
  computation gives for counts of any realistic size. A division by zero gives
  \<open>Infinity\<close>, or \<open>NaN\<close> for \<open>0 / 0\<close>, and \<open>NaN >= 50\<close> is false.
\<close>

definition atLeastHalf :: "nat \<Rightarrow> nat \<Rightarrow> bool" where
  "atLeastHalf received expected =
     (if expected = 0 then 0 < received else 50 * expected \<le> 100 * received)"

definition checkBatchAudioCompletion :: "string \<Rightarrow> unit io" where
  "checkBatchAudioCompletion bid =
     tryCatch
       (andThen (batchFindOne (\<lambda>b. batchId b = bid)) (\<lambda>batch.
          case batch of
            None \<Rightarrow> ret ()
          | Some _ \<Rightarrow>
              andThen (summaryCountDocuments (\<lambda>x. summaryBatchId x = Some bid))
                (\<lambda>totalSummaries.
                  andThen (summaryCountDocuments
                             (\<lambda>x. summaryBatchId x = Some bid \<and> isAudioGenerated x))
                    (\<lambda>summariesWithAudio.
                      if totalSummaries \<le> summariesWithAudio \<and> 0 < totalSummaries
                      then andThen (batchFindOneAndUpdate
                                      (\<lambda>b. batchId b = bid \<and> status b \<noteq> Audio_complete)
                                      (\<lambda>t b. b\<lparr>status := Audio_complete,
                                                audioCompletedAt := Some t\<rparr>))
                             (\<lambda>_. ret ())
                      else ret ()))))
       logOnly"

definition handlePartialCompletion :: "string \<Rightarrow> batchTracker \<Rightarrow> unit io" where
  "handlePartialCompletion bid tracker =
     tryCatch
       (andThen (batchFindOneAndUpdate
                   (\<lambda>b. batchId b = bid \<and> status b = Pending)
                   (\<lambda>t b. b\<lparr>status := Partial_complete, partialCompletedAt := Some t\<rparr>))
          (\<lambda>updatedBatch.
            case updatedBatch of
              None \<Rightarrow> ret ()
            | Some _ \<Rightarrow>
                andThen (triggerAudioGeneration bid) (\<lambda>_. markAudioRequested bid)))
       logOnly"

definition handleFullCompletion :: "string \<Rightarrow> batchTracker \<Rightarrow> unit io" where
  "handleFullCompletion bid tracker =
     tryCatch
       (if status tracker = Partial_complete
        then andThen (batchFindOneAndUpdate
                        (\<lambda>b. batchId b = bid \<and> status b = Partial_complete)
                        (\<lambda>t b. b\<lparr>status := Complete, completedAt := Some t\<rparr>))
               (\<lambda>_. ret ())
        else andThen (batchFindOneAndUpdate
                        (\<lambda>b. batchId b = bid \<and> status b = Pending)
                        (\<lambda>t b. b\<lparr>status := Complete, completedAt := Some t\<rparr>))
               (\<lambda>updatedBatch.
                 case updatedBatch of
                   None \<Rightarrow> ret ()
                 | Some _ \<Rightarrow>
                     andThen (triggerAudioGeneration bid) (\<lambda>_. markAudioRequested bid)))
       logOnly"

text \<open>
  \<open>checkBatchCompletion\<close>. The tracker read at the start is the one all three checks
  look at, whatever the handlers called in between have written.
\<close>

definition checkBatchCompletion :: "string \<Rightarrow> unit io" where
  "checkBatchCompletion bid =
     tryCatch
       (andThen (batchFindOneAndUpdate
                   (\<lambda>b. batchId b = bid)
                   (\<lambda>t b. b\<lparr>receivedCount := receivedCount b + 1\<rparr>))
          (\<lambda>found.
            case found of
              None \<Rightarrow> ret ()
            | Some tracker \<Rightarrow>
                andThen (summaryCountDocuments
                           (\<lambda>x. summaryBatchId x = Some bid \<and> isAudioGenerated x))
                  (\<lambda>summariesWithAudio.
                    andThen (if atLeastHalf (receivedCount tracker) (expectedCount tracker)
                                \<and> status tracker = Pending
                             then handlePartialCompletion bid tracker else ret ())
                      (\<lambda>_.
                        andThen (if expectedCount tracker \<le> receivedCount tracker
                                    \<and> (status tracker = Pending
                                        \<or> status tracker = Partial_complete)
                                 then handleFullCompletion bid tracker else ret ())
                          (\<lambda>_.
                            if receivedCount tracker \<le> summariesWithAudio
                               \<and> 0 < receivedCount tracker
                            then checkBatchAudioCompletion bid else ret ())))))
       logOnly"

definition saveSummary ::
  "string \<Rightarrow> string \<Rightarrow> string option \<Rightarrow> string option \<Rightarrow> string option \<Rightarrow> aiSummary io"
  where
  "saveSummary text uid stype title bid =
     tryCatch
       (andThen (summaryCreate text uid stype title bid) (\<lambda>newSummary.
          andThen (if truthy bid then checkBatchCompletion (the bid) else ret ())
            (\<lambda>_. ret newSummary)))
       throw"

definition handleSummaryAudioGenerationSuccess ::
  "string \<Rightarrow> string \<Rightarrow> nat \<Rightarrow> string option \<Rightarrow> (userMix \<times> aiSummary) io" where
  "handleSummaryAudioGenerationSuccess url uid sid bid =
     tryCatch
       (andThen (summaryFindOneAndUpdate
                   (\<lambda>x. summaryId x = sid \<and> userId x = uid)
                   (\<lambda>x. x\<lparr>isAudioGenerated := True, summaryAudioUrl := Some url\<rparr>))
          (\<lambda>updatedSummary.
            case updatedSummary of
              None \<Rightarrow> throw SummaryNotFound
            | Some updated \<Rightarrow>
                andThen (\<lambda>s. ret (getMixInfoByTimeOfDay s) s) (\<lambda>info.
                  andThen (mixCreate \<lparr>mixAudioUrl = url, mixUserId = uid, mixName = fst info,
                                      mixIcon = ''https://www.google.com/images/branding/googlelogo/1x/googlelogo_color_272x92dp.png'',
                                      mixType = snd info\<rparr>)
                    (\<lambda>audioMix.
                      andThen (if truthy bid then checkBatchAudioCompletion (the bid)
                               else ret ())
                        (\<lambda>_. ret (audioMix, updated))))))
       throw"

text \<open>The deprecated handler for a whole batch.\<close>

definition handleAudioGenerationSuccess :: "string \<Rightarrow> string \<Rightarrow> string \<Rightarrow> userMix io" where
  "handleAudioGenerationSuccess url uid bid =
     tryCatch
       (andThen (\<lambda>s. ret (getMixInfoByTimeOfDay s) s) (\<lambda>info.
          andThen (mixCreate \<lparr>mixAudioUrl = url, mixUserId = uid, mixName = fst info,
                              mixIcon = ''https://www.google.com/images/branding/googlelogo/1x/googlelogo_color_272x92dp.png'',
                              mixType = snd info\<rparr>)
            (\<lambda>audioMix.
              andThen (batchFindOneAndUpdate
                         (\<lambda>b. batchId b = bid)
                         (\<lambda>t b. b\<lparr>status := Audio_complete, audioCompletedAt := Some t,
                                   audioUrl := Some url\<rparr>))
                (\<lambda>_. ret audioMix))))
       throw"

definition handleAudioGenerationFailure :: "string \<Rightarrow> string \<Rightarrow> string \<Rightarrow> unit io" where
  "handleAudioGenerationFailure bid errorMessage uid =
     tryCatch
       (andThen (batchFindOneAndUpdate
                   (\<lambda>b. batchId b = bid)
                   (\<lambda>t b. b\<lparr>status := Audio_failed, audioFailedAt := Some t,
                             failureReason := Some errorMessage\<rparr>))
          (\<lambda>_. ret ()))
       throw"

section \<open>The webhook controller\<close>

datatype payload =
  SummaryReceived aiSummary
| SummaryAudioCompleted userMix aiSummary
| AudioCompleted userMix
| FailureProcessed string

datatype response = Status200 payload | Status400 | Status500 error

text \<open>
  The fields of a request body, passed on as they are: \<open>summaryType\<close>, \<open>summaryTitle\<close>
  and \<open>batchId\<close> may be missing.
\<close>

definition handleSummaryWebhook ::
  "string \<Rightarrow> string \<Rightarrow> string option \<Rightarrow> string option \<Rightarrow> string option \<Rightarrow> sys
     \<Rightarrow> response \<times> sys" where
  "handleSummaryWebhook text uid stype title bid s =
     (case saveSummary text uid stype title bid s of
        (Inr newSummary, s') \<Rightarrow> (Status200 (SummaryReceived newSummary), s')
      | (Inl e, s') \<Rightarrow> (Status500 e, s'))"

definition handleSaveAudioUrl ::
  "string option \<Rightarrow> string option \<Rightarrow> string option \<Rightarrow> nat option \<Rightarrow> sys \<Rightarrow> response \<times> sys" where
  "handleSaveAudioUrl url uid bid sid s =
     (if \<not> truthy url \<or> \<not> truthy uid then (Status400, s)
      else
        (case sid of
           Some i \<Rightarrow>
             (case handleSummaryAudioGenerationSuccess (the url) (the uid) i bid s of
                (Inr (m, x), s') \<Rightarrow> (Status200 (SummaryAudioCompleted m x), s')
              | (Inl e, s') \<Rightarrow> (Status500 e, s'))
         | None \<Rightarrow>
             if truthy bid
             then (case handleAudioGenerationSuccess (the url) (the uid) (the bid) s of
                     (Inr m, s') \<Rightarrow> (Status200 (AudioCompleted m), s')
                   | (Inl e, s') \<Rightarrow> (Status500 e, s'))
             else (Status400, s)))"

definition handleAudioGenerationFailureWebhook ::
  "string option \<Rightarrow> string option \<Rightarrow> string option \<Rightarrow> sys \<Rightarrow> response \<times> sys" where
  "handleAudioGenerationFailureWebhook bid errorMessage uid s =
     (if \<not> truthy bid \<or> \<not> truthy errorMessage \<or> \<not> truthy uid then (Status400, s)
      else
        (case handleAudioGenerationFailure (the bid) (the errorMessage) (the uid) s of
           (Inr _, s') \<Rightarrow> (Status200 (FailureProcessed (the bid)), s')
         | (Inl e, s') \<Rightarrow> (Status500 e, s')))"

section \<open>The batch timeout service\<close>

text \<open>\<open>for (const x of xs) { await f(x) }\<close>: an exception leaves the loop.\<close>

fun forEach :: "('a \<Rightarrow> unit io) \<Rightarrow> 'a list \<Rightarrow> unit io" where
  "forEach f [] = ret ()"
| "forEach f (x # xs) = andThen (f x) (\<lambda>_. forEach f xs)"

text \<open>
  \<open>handleTimeoutBatch\<close>. The argument is the tracker as the sweep's query returned it.
  \<open>summariesNeedingAudio\<close> is a difference of two counts, taken in the integers.
\<close>

definition handleTimeoutBatch :: "batchTracker \<Rightarrow> unit io" where
  "handleTimeoutBatch batch =
     tryCatch
       (if \<not> (status batch = Pending \<or> status batch = Partial_complete) then ret ()
        else
          andThen (summaryCountDocuments (\<lambda>x. summaryBatchId x = Some (batchId batch)))
            (\<lambda>actualSummaryCount.
              andThen (summaryCountDocuments
                         (\<lambda>x. summaryBatchId x = Some (batchId batch) \<and> isAudioGenerated x))
                (\<lambda>summariesWithAudio.
                  andThen (if actualSummaryCount \<noteq> receivedCount batch
                           then andThen (batchFindOneAndUpdate
                                           (\<lambda>b. batchId b = batchId batch)
                                           (\<lambda>t b. b\<lparr>receivedCount := actualSummaryCount\<rparr>))
                                  (\<lambda>_. ret ())
                           else ret ())
                    (\<lambda>_.
                      if 0 < actualSummaryCount then
                        (let summariesNeedingAudio =
                               int actualSummaryCount - int summariesWithAudio
                         in
                           if status batch = Pending then
                             andThen (batchFindOneAndUpdate
                                        (\<lambda>b. batchId b = batchId batch \<and> status b = Pending)
                                        (\<lambda>t b. b\<lparr>status := Complete, completedAt := Some t\<rparr>))
                               (\<lambda>updatedBatch.
                                 case updatedBatch of
                                   None \<Rightarrow> ret ()
                                 | Some _ \<Rightarrow>
                                     if 0 < summariesNeedingAudio
                                     then andThen (triggerAudioGeneration (batchId batch))
                                            (\<lambda>_. markAudioRequested (batchId batch))
                                     else markAudioComplete (batchId batch))
                           else if status batch = Partial_complete then
                             andThen (batchFindOneAndUpdate
                                        (\<lambda>b. batchId b = batchId batch
                                              \<and> status b = Partial_complete)
                                        (\<lambda>t b. b\<lparr>status := Complete, completedAt := Some t\<rparr>))
                               (\<lambda>_. ret ())
                           else ret ())
                      else
                        andThen (batchFindOneAndUpdate
                                   (\<lambda>b. batchId b = batchId batch
                                         \<and> (status b = Pending \<or> status b = Partial_complete))
                                   (\<lambda>t b. b\<lparr>status := Failed, completedAt := Some t\<rparr>))
                          (\<lambda>_. ret ())))))
       logOnly"

definition processTimeoutBatches :: "unit io" where
  "processTimeoutBatches =
     tryCatch
       (andThen (\<lambda>s. ret (now s) s) (\<lambda>t.
          andThen (batchFind (\<lambda>b. timeoutAt b \<le> t
                                 \<and> (status b = Pending \<or> status b = Partial_complete)))
            (\<lambda>timedOutBatches. forEach handleTimeoutBatch timedOutBatches)))
       logOnly"

definition recoverFailedBatch :: "batchTracker \<Rightarrow> nat \<Rightarrow> unit io" where
  "recoverFailedBatch batch summaryCount =
     tryCatch
       (if status batch \<noteq> Failed then ret ()
        else
          andThen (summaryCountDocuments
                     (\<lambda>x. summaryBatchId x = Some (batchId batch) \<and> isAudioGenerated x))
            (\<lambda>summariesWithAudio.
              (let summariesNeedingAudio = int summaryCount - int summariesWithAudio in
               andThen (batchFindOneAndUpdate
                          (\<lambda>b. batchId b = batchId batch \<and> status b = Failed)
                          (\<lambda>t b. b\<lparr>receivedCount := summaryCount, status := Complete,
                                    completedAt := Some t\<rparr>))
                 (\<lambda>updatedBatch.
                   case updatedBatch of
                     None \<Rightarrow> ret ()
                   | Some _ \<Rightarrow>
                       if 0 < summariesNeedingAudio
                       then andThen (triggerAudioGeneration (batchId batch))
                              (\<lambda>_. markAudioRequested (batchId batch))
                       else markAudioComplete (batchId batch)))))
       logOnly"

text \<open>The body of the loop of \<open>processOrphanedSummaries\<close>.\<close>

definition recoverIfOrphaned :: "batchTracker \<Rightarrow> unit io" where
  "recoverIfOrphaned batch =
     andThen (summaryCountDocuments (\<lambda>x. summaryBatchId x = Some (batchId batch)))
       (\<lambda>summaryCount.
         if 0 < summaryCount then recoverFailedBatch batch summaryCount else ret ())"

definition processOrphanedSummaries :: "unit io" where
  "processOrphanedSummaries =
     tryCatch
       (andThen (batchFind (\<lambda>b. status b = Failed \<and> receivedCount b = 0))
          (\<lambda>failedBatches. forEach recoverIfOrphaned failedBatches))
       logOnly"

definition triggerPartialCompletion :: "batchTracker \<Rightarrow> unit io" where
  "triggerPartialCompletion batch =
     tryCatch
       (if status batch \<noteq> Pending then ret ()
        else
          andThen (batchFindOneAndUpdate
                     (\<lambda>b. batchId b = batchId batch \<and> status b = Pending)
                     (\<lambda>t b. b\<lparr>status := Partial_complete, partialCompletedAt := Some t\<rparr>))
            (\<lambda>updatedBatch.
              case updatedBatch of
                None \<Rightarrow> ret ()
              | Some _ \<Rightarrow>
                  andThen (triggerAudioGeneration (batchId batch))
                    (\<lambda>_. markAudioRequested (batchId batch))))
       logOnly"

text \<open>The body of the loop of \<open>checkPartialCompletionBatches\<close>.\<close>

definition checkIfHalfComplete :: "batchTracker \<Rightarrow> unit io" where
  "checkIfHalfComplete batch =
     (if atLeastHalf (receivedCount batch) (expectedCount batch)
      then triggerPartialCompletion batch else ret ())"

definition checkPartialCompletionBatches :: "unit io" where
  "checkPartialCompletionBatches =
     tryCatch
       (andThen (batchFind (\<lambda>b. status b = Pending \<and> 0 < receivedCount b))
          (\<lambda>pendingBatches. forEach checkIfHalfComplete pendingBatches))
       logOnly"

text \<open>
  \<open>getBatchStatistics\<close>: the number of batches of each status (the average completion
  rate, a floating point number, is left out). A failure gives the empty list.
\<close>

definition getBatchStatistics :: "(status \<times> nat) list io" where
  "getBatchStatistics =
     tryCatch
       (storeCall (\<lambda>s.
          (filter (\<lambda>p. 0 < snd p)
             (map (\<lambda>st. (st, length (filter (\<lambda>b. status b = st) (batches s))))
                [Audio_complete, Audio_failed, Audio_requested, Complete, Failed,
                 Partial_complete, Pending]), s)))
       (\<lambda>e. ret [])"

definition runPeriodicMaintenance :: "unit io" where
  "runPeriodicMaintenance =
     tryCatch
       (andThen processTimeoutBatches (\<lambda>_.
          andThen processOrphanedSummaries (\<lambda>_.
            andThen checkPartialCompletionBatches (\<lambda>_.
              andThen getBatchStatistics (\<lambda>stats. ret ())))))
       logOnly"

section \<open>Observations and example states\<close>

text \<open>Whether the next store operation fails, and the state once its outcome is used up.\<close>

definition storeFails :: "sys \<Rightarrow> bool" where
  "storeFails s = (case faults s of [] \<Rightarrow> False | flt # _ \<Rightarrow> flt)"

definition consumed :: "sys \<Rightarrow> sys" where
  "consumed s = s\<lparr>faults := tl (faults s)\<rparr>"

text \<open>The tracker of a batch, its units, and the units sent to the audio worker for it.\<close>

definition tracker :: "string \<Rightarrow> sys \<Rightarrow> batchTracker option" where
  "tracker bid s = find (\<lambda>b. batchId b = bid) (batches s)"

definition unitsOf :: "string \<Rightarrow> sys \<Rightarrow> aiSummary list" where
  "unitsOf bid s = filter (\<lambda>x. summaryBatchId x = Some bid) (summaries s)"

definition unitsLackingAudio :: "string \<Rightarrow> sys \<Rightarrow> aiSummary list" where
  "unitsLackingAudio bid s =
     filter (\<lambda>x. summaryBatchId x = Some bid \<and> \<not> isAudioGenerated x) (summaries s)"

definition dispatchedFor :: "string \<Rightarrow> sys \<Rightarrow> nat list" where
  "dispatchedFor bid s = map reqSummaryId (filter (\<lambda>r. reqBatchId r = bid) (sent s))"

text \<open>The unique index on \<open>batchId\<close>.\<close>

definition distinctIds :: "sys \<Rightarrow> bool" where
  "distinctIds s = distinct (map batchId (batches s))"

text \<open>Documents and states for the examples.\<close>

definition mkBatch :: "string \<Rightarrow> nat \<Rightarrow> nat \<Rightarrow> status \<Rightarrow> nat \<Rightarrow> batchTracker" where
  "mkBatch bid expected received st deadline =
     \<lparr>batchId = bid, expectedCount = expected, receivedCount = received, status = st,
      createdAt = 0, partialCompletedAt = None, completedAt = None, audioRequestedAt = None,
      audioCompletedAt = None, audioFailedAt = None, timeoutAt = deadline, userIds = [],
      audioUrl = None, failureReason = None\<rparr>"

definition mkSummary :: "nat \<Rightarrow> string \<Rightarrow> string \<Rightarrow> bool \<Rightarrow> aiSummary" where
  "mkSummary i uid bid audio =
     \<lparr>summaryId = i, userId = uid, summary = ''text'', summaryType = ''user'',
      summaryTitle = ''Daily Mix'', summaryBatchId = Some bid, isAudioGenerated = audio,
      summaryAudioUrl = (if audio then Some ''url'' else None)\<rparr>"

definition mkSys :: "batchTracker list \<Rightarrow> aiSummary list \<Rightarrow> nat \<Rightarrow> bool list \<Rightarrow> sys" where
  "mkSys bs xs t fs =
     \<lparr>batches = bs, summaries = xs, mixes = [], nextId = length xs, now = t, faults = fs,
      sent = [], transitions = []\<rparr>"

text \<open>Whether one of the store operations made between two states has failed.\<close>

definition storeFailedDuring :: "sys \<Rightarrow> sys \<Rightarrow> bool" where
  "storeFailedDuring s s' \<longleftrightarrow>
     True \<in> set (take (length (faults s) - length (faults s')) (faults s))"

text \<open>The document \<open>AiSummaries.create\<close> writes in state \<open>s\<close>.\<close>

definition newSummaryDoc ::
  "sys \<Rightarrow> string \<Rightarrow> string \<Rightarrow> string option \<Rightarrow> string option \<Rightarrow> string option \<Rightarrow> aiSummary"
  where
  "newSummaryDoc s text uid stype title bid =
     \<lparr>summaryId = nextId s, userId = uid, summary = text,
      summaryType = (case stype of None \<Rightarrow> ''user'' | Some t \<Rightarrow> t),
      summaryTitle = (case title of None \<Rightarrow> ''Daily Mix'' | Some t \<Rightarrow> t),
      summaryBatchId = bid, isAudioGenerated = False, summaryAudioUrl = None\<rparr>"


section \<open>Requests and runs\<close>

text \<open>
  What reaches the engine from outside: the three webhooks, the tick of the maintenance
  scheduler, and time passing. A run handles them one after the other.
\<close>

datatype event =
  SummaryArrived string string "string option" "string option" "string option"
| AudioSaved "string option" "string option" "string option" "nat option"
| AudioFailureReported "string option" "string option" "string option"
| Maintenance
| Elapse nat

fun exec :: "event \<Rightarrow> sys \<Rightarrow> sys" where
  "exec (SummaryArrived text uid stype title bid) s =
     snd (handleSummaryWebhook text uid stype title bid s)"
| "exec (AudioSaved url uid bid sid) s = snd (handleSaveAudioUrl url uid bid sid s)"
| "exec (AudioFailureReported bid msg uid) s =
     snd (handleAudioGenerationFailureWebhook bid msg uid s)"
| "exec Maintenance s = snd (runPeriodicMaintenance s)"
| "exec (Elapse ms) s = s\<lparr>now := now s + ms\<rparr>"

fun run :: "event list \<Rightarrow> sys \<Rightarrow> sys" where
  "run [] s = s"
| "run (e # es) s = run es (exec e s)"

text \<open>The arrival of the summary of user \<open>uid\<close> for batch \<open>bid\<close>.\<close>

definition arrival :: "string \<Rightarrow> string \<Rightarrow> event" where
  "arrival uid bid =
     SummaryArrived ''text'' uid (Some ''user'') (Some ''Daily Mix'') (Some bid)"

section \<open>The life cycle of a batch\<close>

text \<open>
  The transitions listed in the table of the design (section 4.1), as the table words
  them: \<open>pending\<close> to \<open>partial_complete\<close>; \<open>pending\<close> or \<open>partial_complete\<close> to
  \<open>complete\<close>; \<open>complete\<close> or \<open>partial_complete\<close> to \<open>audio_requested\<close>;
  \<open>audio_requested\<close> to \<open>audio_complete\<close>; any non-terminal status to \<open>failed\<close>;
  \<open>failed\<close> to \<open>complete\<close>. The terminal statuses are \<open>audio_complete\<close>,
  \<open>audio_failed\<close> and \<open>failed\<close>.
\<close>

definition terminal :: "status \<Rightarrow> bool" where
  "terminal st \<longleftrightarrow> st = Audio_complete \<or> st = Audio_failed \<or> st = Failed"

definition listedTransition :: "status \<Rightarrow> status \<Rightarrow> bool" where
  "listedTransition old new \<longleftrightarrow>
     (old = Pending \<and> new = Partial_complete) \<or>
     ((old = Pending \<or> old = Partial_complete) \<and> new = Complete) \<or>
     ((old = Complete \<or> old = Partial_complete) \<and> new = Audio_requested) \<or>
     (old = Audio_requested \<and> new = Audio_complete) \<or>
     (\<not> terminal old \<and> new = Failed) \<or>
     (old = Failed \<and> new = Complete)"

text \<open>The changes of status the engine makes outside of the failure report.\<close>

definition lawfulChange :: "status \<Rightarrow> status \<Rightarrow> bool" where
  "lawfulChange old new \<longleftrightarrow> listedTransition old new \<or> new = Audio_complete"

text \<open>The statuses from which no write of the engine leads back to \<open>failed\<close>.\<close>

definition settled :: "status \<Rightarrow> bool" where
  "settled st \<longleftrightarrow>
     st = Complete \<or> st = Audio_requested \<or> st = Audio_complete \<or> st = Audio_failed"

text \<open>
  What a tracker may become: its identity and the count it expects are kept, and once
  settled it stays settled.
\<close>

definition trackerStep :: "batchTracker \<Rightarrow> batchTracker \<Rightarrow> bool" where
  "trackerStep b b' \<longleftrightarrow>
     batchId b' = batchId b \<and> expectedCount b' = expectedCount b \<and>
     (settled (status b) \<longrightarrow> settled (status b'))"

text \<open>
  \<open>evolves A s s'\<close>: from a state with distinct batch ids, every tracker has made a
  \<open>trackerStep\<close>, every change of status recorded since \<open>s\<close> is one that \<open>A\<close> allows, and
  the outcomes of store operations left in \<open>s'\<close> are what is left of those of \<open>s\<close>.
\<close>

definition evolves :: "(status \<Rightarrow> status \<Rightarrow> bool) \<Rightarrow> sys \<Rightarrow> sys \<Rightarrow> bool" where
  "evolves A s s' \<longleftrightarrow>
     (distinctIds s \<longrightarrow>
        list_all2 trackerStep (batches s) (batches s') \<and>
        (\<exists>ext. transitions s' = transitions s @ ext \<and>
               (\<forall>t \<in> set ext. A (fst (snd t)) (snd (snd t)))) \<and>
        (\<exists>n. faults s' = drop n (faults s)))"

text \<open>A promise all of whose runs are in a relation between the states.\<close>

definition pres :: "(sys \<Rightarrow> sys \<Rightarrow> bool) \<Rightarrow> 'a io \<Rightarrow> bool" where
  "pres R m \<longleftrightarrow> (\<forall>s. R s (snd (m s)))"

text \<open>
  The changes of status an event may cause: those of the table, a change to
  \<open>audio_complete\<close>, and for a failure report a change to \<open>audio_failed\<close>.
\<close>

definition isFailureReport :: "event \<Rightarrow> bool" where
  "isFailureReport ev = (case ev of AudioFailureReported _ _ _ \<Rightarrow> True | _ \<Rightarrow> False)"

definition engineChange :: "event \<Rightarrow> status \<Rightarrow> status \<Rightarrow> bool" where
  "engineChange ev old new \<longleftrightarrow>
     listedTransition old new \<or> new = Audio_complete \<or>
     (new = Audio_failed \<and> isFailureReport ev)"

section \<open>What a pass of the sweep does to one batch\<close>

text \<open>The state once the tracker of \<open>bid\<close> has been updated with \<open>u\<close>.\<close>

definition withUpdate :: "string \<Rightarrow> (nat \<Rightarrow> batchTracker \<Rightarrow> batchTracker) \<Rightarrow> sys \<Rightarrow> sys" where
  "withUpdate bid u s =
     (case tracker bid s of
        None \<Rightarrow> s
      | Some b \<Rightarrow>
          s\<lparr>batches := updFirst (\<lambda>x. batchId x = bid) (u (now s)) (batches s),
            transitions := transitions s @
              (if status (u (now s) b) = status b then []
               else [(batchId b, status b, status (u (now s) b))])\<rparr>)"

text \<open>The changes of status recorded for one batch.\<close>

definition changesOf :: "string \<Rightarrow> sys \<Rightarrow> (status \<times> status) list" where
  "changesOf bid s = map snd (filter (\<lambda>t. fst t = bid) (transitions s))"

text \<open>A step that leaves a batch alone, and one that leaves the units alone.\<close>

definition untouched :: "string \<Rightarrow> sys \<Rightarrow> sys \<Rightarrow> bool" where
  "untouched k s s' \<longleftrightarrow>
     tracker k s' = tracker k s \<and> dispatchedFor k s' = dispatchedFor k s \<and>
     changesOf k s' = changesOf k s"

definition sameUnits :: "sys \<Rightarrow> sys \<Rightarrow> bool" where
  "sameUnits s s' \<longleftrightarrow> summaries s' = summaries s"

text \<open>A state in which the store works and the batch ids are distinct.\<close>

definition sound :: "sys \<Rightarrow> bool" where
  "sound s \<longleftrightarrow> faults s = [] \<and> distinctIds s"

text \<open>
  The outcome of the timeout pass for a batch \<open>b\<close> that it found timed out in state \<open>s\<close>:
  the count of the tracker is the number of units of the batch; with no unit the batch
  is \<open>failed\<close>; with units, a batch found \<open>pending\<close> has been made \<open>complete\<close> and then
  \<open>audio_requested\<close>, its units without audio sent to the audio worker, or
  \<open>audio_complete\<close> with nothing sent when all its units have audio, and a batch found
  \<open>partial_complete\<close> has been made \<open>complete\<close> with nothing sent.
\<close>

definition timeoutOutcome :: "batchTracker \<Rightarrow> sys \<Rightarrow> sys \<Rightarrow> bool" where
  "timeoutOutcome b s s' \<longleftrightarrow>
     (\<exists>b'. tracker (batchId b) s' = Some b' \<and>
        receivedCount b' = length (unitsOf (batchId b) s) \<and>
        (if unitsOf (batchId b) s = [] then
           status b' = Failed \<and>
           changesOf (batchId b) s' = changesOf (batchId b) s @ [(status b, Failed)] \<and>
           dispatchedFor (batchId b) s' = dispatchedFor (batchId b) s
         else if status b = Pending then
           (if unitsLackingAudio (batchId b) s \<noteq> [] then
              status b' = Audio_requested \<and>
              changesOf (batchId b) s' =
                changesOf (batchId b) s @ [(Pending, Complete), (Complete, Audio_requested)] \<and>
              dispatchedFor (batchId b) s' =
                dispatchedFor (batchId b) s @ map summaryId (unitsLackingAudio (batchId b) s)
            else
              status b' = Audio_complete \<and>
              changesOf (batchId b) s' =
                changesOf (batchId b) s @ [(Pending, Complete), (Complete, Audio_complete)] \<and>
              dispatchedFor (batchId b) s' = dispatchedFor (batchId b) s)
         else
           status b' = Complete \<and>
           changesOf (batchId b) s' = changesOf (batchId b) s @ [(Partial_complete, Complete)] \<and>
           dispatchedFor (batchId b) s' = dispatchedFor (batchId b) s))"

text \<open>
  The timeout pass as the design states it (section 4.3): the count is reconciled; with
  no unit the batch is \<open>failed\<close>; with units the batch has made the transition to
  \<open>complete\<close> and the units without audio have been dispatched.
\<close>

definition statedTimeoutOutcome :: "batchTracker \<Rightarrow> sys \<Rightarrow> sys \<Rightarrow> bool" where
  "statedTimeoutOutcome b s s' \<longleftrightarrow>
     (\<exists>b'. tracker (batchId b) s' = Some b' \<and>
        receivedCount b' = length (unitsOf (batchId b) s) \<and>
        (if unitsOf (batchId b) s = [] then status b' = Failed
         else
           (status b, Complete) \<in> set (changesOf (batchId b) s') \<and>
           dispatchedFor (batchId b) s' =
             dispatchedFor (batchId b) s @ map summaryId (unitsLackingAudio (batchId b) s)))"

text \<open>
  The outcome of the recovery pass for a batch \<open>b\<close> it found \<open>failed\<close> with units in
  state \<open>s\<close>: the batch has been made \<open>complete\<close>, with the number of its units as its
  count, and then \<open>audio_requested\<close>, its units without audio sent to the audio worker, or
  \<open>audio_complete\<close> with nothing sent when all its units have audio.
\<close>

definition recoveryOutcome :: "batchTracker \<Rightarrow> sys \<Rightarrow> sys \<Rightarrow> bool" where
  "recoveryOutcome b s s' \<longleftrightarrow>
     (\<exists>b'. tracker (batchId b) s' = Some b' \<and>
        receivedCount b' = length (unitsOf (batchId b) s) \<and>
        (if unitsLackingAudio (batchId b) s \<noteq> [] then
           status b' = Audio_requested \<and>
           changesOf (batchId b) s' =
             changesOf (batchId b) s @ [(Failed, Complete), (Complete, Audio_requested)] \<and>
           dispatchedFor (batchId b) s' =
             dispatchedFor (batchId b) s @ map summaryId (unitsLackingAudio (batchId b) s)
         else
           status b' = Audio_complete \<and>
           changesOf (batchId b) s' =
             changesOf (batchId b) s @ [(Failed, Complete), (Complete, Audio_complete)] \<and>
           dispatchedFor (batchId b) s' = dispatchedFor (batchId b) s))"

section \<open>Counts\<close>

text \<open>The count of the tracker of a batch is the number of its persisted units.\<close>

definition counted :: "string \<Rightarrow> sys \<Rightarrow> bool" where
  "counted bid s \<longleftrightarrow> (\<exists>b. tracker bid s = Some b \<and> receivedCount b = length (unitsOf bid s))"

text \<open>
  A step that writes no unit and no count, and after which the store works if it did
  before.
\<close>

definition quiet :: "sys \<Rightarrow> sys \<Rightarrow> bool" where
  "quiet s s' \<longleftrightarrow>
     summaries s' = summaries s \<and>
     list_all2 (\<lambda>b b'. batchId b' = batchId b \<and> receivedCount b' = receivedCount b)
       (batches s) (batches s') \<and>
     (faults s = [] \<longrightarrow> faults s' = [])"

section \<open>Concurrent invocations of \<open>handlePartialCompletion\<close>\<close>

text \<open>
  The handlers run on one thread and give way to one another at each \<open>await\<close>. An
  invocation of \<open>handlePartialCompletion\<close> (with the call of \<open>triggerAudioGeneration\<close>
  inside it) is therefore a sequence of steps, one for each operation it awaits, and
  concurrent invocations are interleavings of their steps. The phase of an invocation
  says which operation it is about to await; it holds the summaries \<open>find\<close> returned,
  the local variable the loop of \<open>triggerAudioGeneration\<close> runs over. \<open>Won\<close> and \<open>Lost\<close>
  are the two ways it ends: having made the conditional update from \<open>pending\<close>, or not.
\<close>

datatype phase =
  AtUpdate
| AtStatusQuery
| AtFind
| AtCount "aiSummary list"
| AtSend "aiSummary list"
| AtMark
| Won
| Lost

fun stepProc :: "string \<Rightarrow> phase \<Rightarrow> sys \<Rightarrow> phase \<times> sys" where
  "stepProc bid AtUpdate s =
     (case batchFindOneAndUpdate
             (\<lambda>b. batchId b = bid \<and> status b = Pending)
             (\<lambda>t b. b\<lparr>status := Partial_complete, partialCompletedAt := Some t\<rparr>) s of
        (Inl e, s') \<Rightarrow> (Lost, s')
      | (Inr None, s') \<Rightarrow> (Lost, s')
      | (Inr (Some _), s') \<Rightarrow> (AtStatusQuery, s'))"
| "stepProc bid AtStatusQuery s =
     (case batchFindOne (\<lambda>b. batchId b = bid) s of
        (Inl e, s') \<Rightarrow> (Won, s')
      | (Inr batchStatus, s') \<Rightarrow>
          if (case batchStatus of None \<Rightarrow> False | Some b \<Rightarrow> audioProcessed (status b))
          then (AtMark, s') else (AtFind, s'))"
| "stepProc bid AtFind s =
     (case summaryFind (\<lambda>x. summaryBatchId x = Some bid \<and> \<not> isAudioGenerated x) s of
        (Inl e, s') \<Rightarrow> (Won, s')
      | (Inr found, s') \<Rightarrow> if found = [] then (AtMark, s') else (AtCount found, s'))"
| "stepProc bid (AtCount found) s =
     (case summaryCountDocuments (\<lambda>x. summaryBatchId x = Some bid) s of
        (Inl e, s') \<Rightarrow> (Won, s')
      | (Inr totalSummaries, s') \<Rightarrow> (AtSend found, s'))"
| "stepProc bid (AtSend []) s = (AtMark, s)"
| "stepProc bid (AtSend [x]) s = (AtMark, sendIndividualSummaryForAudio x bid s)"
| "stepProc bid (AtSend (x # y # ys)) s =
     (AtSend (y # ys), delay 1000 (sendIndividualSummaryForAudio x bid s))"
| "stepProc bid AtMark s = (Won, snd (markAudioRequested bid s))"
| "stepProc bid Won s = (Won, s)"
| "stepProc bid Lost s = (Lost, s)"

text \<open>One invocation on its own, for a number of steps.\<close>

fun alone :: "nat \<Rightarrow> string \<Rightarrow> phase \<times> sys \<Rightarrow> phase \<times> sys" where
  "alone 0 bid c = c"
| "alone (Suc k) bid c = (case alone k bid c of (p, t) \<Rightarrow> stepProc bid p t)"

definition ended :: "phase \<Rightarrow> bool" where
  "ended p \<longleftrightarrow> p = Won \<or> p = Lost"

text \<open>
  An invocation that has made the conditional update and is not over, or is over as the
  winner; a state in which the batch is no longer \<open>pending\<close>.
\<close>

definition beyond :: "phase \<Rightarrow> bool" where
  "beyond p \<longleftrightarrow> p \<noteq> AtUpdate \<and> p \<noteq> Lost"

definition passed :: "string \<Rightarrow> sys \<Rightarrow> bool" where
  "passed bid t \<longleftrightarrow> sound t \<and> (\<exists>b'. tracker bid t = Some b' \<and> status b' \<noteq> Pending)"

section \<open>Concurrent invocations of the evaluator\<close>

text \<open>
  An invocation of \<open>checkBatchCompletion\<close> from the moment it has read the tracker: the
  count of the summaries with audio, then the three checks, each on the tracker it has
  read. A stage says which operation the invocation is about to await. Inside
  \<open>handlePartialCompletion\<close> it is a phase of that handler; inside \<open>handleFullCompletion\<close>
  it is the conditional update from \<open>pending\<close>, then the same phases (the two handlers
  have the same code from there on), or the update from \<open>partial_complete\<close> when that is
  the status read; inside \<open>checkBatchAudioCompletion\<close> it is the query of the batch, the
  two counts (the second holds the result of the first) and the update.
\<close>

datatype stage =
  CountAudio
| Partial phase
| FullUpdate
| FullRest phase
| CompleteUpdate
| AudioQuery
| AudioTotal
| AudioWith nat
| AudioUpdate
| Finished

text \<open>
  The local variables of an invocation: the tracker it has read and the count of the
  summaries with audio. With them, what it has done so far: the changes of status it has
  made and the units it has sent to the audio worker.
\<close>

record invocation =
  seen :: batchTracker
  withAudio :: nat
  stage :: stage
  wrote :: "(status \<times> status) list"
  dispatched :: "nat list"

text \<open>Where an invocation goes on after the count, after the first and the second check.\<close>

definition afterFull :: "invocation \<Rightarrow> stage" where
  "afterFull v =
     (if receivedCount (seen v) \<le> withAudio v \<and> 0 < receivedCount (seen v)
      then AudioQuery else Finished)"

definition afterPartial :: "invocation \<Rightarrow> stage" where
  "afterPartial v =
     (if expectedCount (seen v) \<le> receivedCount (seen v)
         \<and> (status (seen v) = Pending \<or> status (seen v) = Partial_complete)
      then (if status (seen v) = Partial_complete then CompleteUpdate else FullUpdate)
      else afterFull v)"

definition afterCount :: "invocation \<Rightarrow> stage" where
  "afterCount v =
     (if atLeastHalf (receivedCount (seen v)) (expectedCount (seen v))
         \<and> status (seen v) = Pending
      then Partial AtUpdate else afterPartial v)"

text \<open>
  One step of an invocation. An error of the count at the start ends the invocation (the
  \<open>catch\<close> of \<open>checkBatchCompletion\<close>); an error inside a handler ends the handler (its own
  \<open>catch\<close>) and the invocation goes on with the next check.
\<close>

fun stepStage :: "string \<Rightarrow> invocation \<Rightarrow> stage \<Rightarrow> sys \<Rightarrow> invocation \<times> sys" where
  "stepStage bid v CountAudio s =
     (case summaryCountDocuments (\<lambda>x. summaryBatchId x = Some bid \<and> isAudioGenerated x) s of
        (Inl e, s') \<Rightarrow> (v\<lparr>stage := Finished\<rparr>, s')
      | (Inr summariesWithAudio, s') \<Rightarrow>
          (v\<lparr>withAudio := summariesWithAudio,
             stage := afterCount (v\<lparr>withAudio := summariesWithAudio\<rparr>)\<rparr>, s'))"
| "stepStage bid v (Partial p) s =
     (if ended p then (v\<lparr>stage := afterPartial v\<rparr>, s)
      else (case stepProc bid p s of (p', s') \<Rightarrow> (v\<lparr>stage := Partial p'\<rparr>, s')))"
| "stepStage bid v FullUpdate s =
     (case batchFindOneAndUpdate
             (\<lambda>b. batchId b = bid \<and> status b = Pending)
             (\<lambda>t b. b\<lparr>status := Complete, completedAt := Some t\<rparr>) s of
        (Inl e, s') \<Rightarrow> (v\<lparr>stage := afterFull v\<rparr>, s')
      | (Inr None, s') \<Rightarrow> (v\<lparr>stage := afterFull v\<rparr>, s')
      | (Inr (Some _), s') \<Rightarrow> (v\<lparr>stage := FullRest AtStatusQuery\<rparr>, s'))"
| "stepStage bid v (FullRest p) s =
     (if ended p then (v\<lparr>stage := afterFull v\<rparr>, s)
      else (case stepProc bid p s of (p', s') \<Rightarrow> (v\<lparr>stage := FullRest p'\<rparr>, s')))"
| "stepStage bid v CompleteUpdate s =
     (case batchFindOneAndUpdate
             (\<lambda>b. batchId b = bid \<and> status b = Partial_complete)
             (\<lambda>t b. b\<lparr>status := Complete, completedAt := Some t\<rparr>) s of
        (r, s') \<Rightarrow> (v\<lparr>stage := afterFull v\<rparr>, s'))"
| "stepStage bid v AudioQuery s =
     (case batchFindOne (\<lambda>b. batchId b = bid) s of
        (Inl e, s') \<Rightarrow> (v\<lparr>stage := Finished\<rparr>, s')
      | (Inr None, s') \<Rightarrow> (v\<lparr>stage := Finished\<rparr>, s')
      | (Inr (Some _), s') \<Rightarrow> (v\<lparr>stage := AudioTotal\<rparr>, s'))"
| "stepStage bid v AudioTotal s =
     (case summaryCountDocuments (\<lambda>x. summaryBatchId x = Some bid) s of
        (Inl e, s') \<Rightarrow> (v\<lparr>stage := Finished\<rparr>, s')
      | (Inr totalSummaries, s') \<Rightarrow> (v\<lparr>stage := AudioWith totalSummaries\<rparr>, s'))"
| "stepStage bid v (AudioWith totalSummaries) s =
     (case summaryCountDocuments (\<lambda>x. summaryBatchId x = Some bid \<and> isAudioGenerated x) s of
        (Inl e, s') \<Rightarrow> (v\<lparr>stage := Finished\<rparr>, s')
      | (Inr summariesWithAudio, s') \<Rightarrow>
          if totalSummaries \<le> summariesWithAudio \<and> 0 < totalSummaries
          then (v\<lparr>stage := AudioUpdate\<rparr>, s') else (v\<lparr>stage := Finished\<rparr>, s'))"
| "stepStage bid v AudioUpdate s =
     (case batchFindOneAndUpdate
             (\<lambda>b. batchId b = bid \<and> status b \<noteq> Audio_complete)
             (\<lambda>t b. b\<lparr>status := Audio_complete, audioCompletedAt := Some t\<rparr>) s of
        (r, s') \<Rightarrow> (v\<lparr>stage := Finished\<rparr>, s'))"
| "stepStage bid v Finished s = (v, s)"

text \<open>
  Several invocations: a schedule is the list of the invocations that make the next
  step, in order. The changes of status and the requests that a step adds to the state
  are put down as done by the invocation that made it.
\<close>

definition stepAt :: "string \<Rightarrow> nat \<Rightarrow> invocation list \<times> sys \<Rightarrow> invocation list \<times> sys" where
  "stepAt bid i c =
     (case c of (vs, t) \<Rightarrow>
        if i < length vs
        then (case stepStage bid (vs ! i) (stage (vs ! i)) t of
                (v', t') \<Rightarrow>
                  (vs[i := v'\<lparr>wrote := wrote v' @
                                 drop (length (changesOf bid t)) (changesOf bid t'),
                               dispatched := dispatched v' @
                                 drop (length (dispatchedFor bid t)) (dispatchedFor bid t')\<rparr>],
                   t'))
        else (vs, t))"

fun runSchedule ::
  "string \<Rightarrow> nat list \<Rightarrow> invocation list \<times> sys \<Rightarrow> invocation list \<times> sys" where
  "runSchedule bid [] c = c"
| "runSchedule bid (i # is) c = runSchedule bid is (stepAt bid i c)"

text \<open>An invocation that has just read the tracker \<open>b\<close>.\<close>

definition observing :: "batchTracker \<Rightarrow> invocation" where
  "observing b = \<lparr>seen = b, withAudio = 0, stage = CountAudio, wrote = [], dispatched = []\<rparr>"

text \<open>
  The invocation that has made the change from \<open>pending\<close> to \<open>partial_complete\<close>; the
  race as the design states it (section 4.2): one invocation has made that change, and
  the others have changed no status and sent nothing.
\<close>

definition winner :: "invocation \<Rightarrow> bool" where
  "winner v \<longleftrightarrow> (Pending, Partial_complete) \<in> set (wrote v)"

definition statedRace :: "invocation list \<Rightarrow> bool" where
  "statedRace vs \<longleftrightarrow>
     length (filter winner vs) = 1 \<and>
     list_all (\<lambda>v. winner v \<or> (wrote v = [] \<and> dispatched v = [])) vs"

text \<open>
  The stages of an invocation that has read a \<open>pending\<close> tracker and has no update to
  make any more: before the conditional update of the first check or after having lost
  it, and the stages that follow when no update succeeds. The count a stage holds is
  the number of units of the batch in state \<open>s\<close>.
\<close>

fun tailStage :: "string \<Rightarrow> sys \<Rightarrow> stage \<Rightarrow> bool" where
  "tailStage bid s FullUpdate = True"
| "tailStage bid s AudioQuery = True"
| "tailStage bid s AudioTotal = True"
| "tailStage bid s (AudioWith n) = (n = length (unitsOf bid s))"
| "tailStage bid s Finished = True"
| "tailStage bid s _ = False"

definition quietStage :: "string \<Rightarrow> sys \<Rightarrow> stage \<Rightarrow> bool" where
  "quietStage bid s st \<longleftrightarrow>
     st = CountAudio \<or> st = Partial AtUpdate \<or> st = Partial Lost \<or> tailStage bid s st"

definition observes :: "invocation \<Rightarrow> bool" where
  "observes v \<longleftrightarrow>
     status (seen v) = Pending \<and> atLeastHalf (receivedCount (seen v)) (expectedCount (seen v))"

definition idle :: "string \<Rightarrow> sys \<Rightarrow> invocation \<Rightarrow> bool" where
  "idle bid s v \<longleftrightarrow>
     observes v \<and> wrote v = [] \<and> dispatched v = [] \<and> quietStage bid s (stage v)"

text \<open>
  The invocation that is ahead, in state \<open>t\<close> of a race from state \<open>s\<close>: the state is one
  that \<open>handlePartialCompletion\<close> on its own reaches from \<open>s\<close>, the invocation is at that
  point of the handler or has left it, and what the state records for the batch beyond
  \<open>s\<close> is what this invocation has done.
\<close>

definition lead :: "string \<Rightarrow> sys \<Rightarrow> invocation \<Rightarrow> sys \<Rightarrow> bool" where
  "lead bid s v t \<longleftrightarrow>
     observes v \<and> winner v \<and>
     changesOf bid t = changesOf bid s @ wrote v \<and>
     dispatchedFor bid t = dispatchedFor bid s @ dispatched v \<and>
     (\<exists>k p. (p, t) = alone (Suc k) bid (AtUpdate, s) \<and>
        (stage v = Partial p \<or> (p = Won \<and> tailStage bid s (stage v))))"

text \<open>
  The invariant of the race from a state \<open>s\<close>: either no invocation has made an update
  and the state is \<open>s\<close>, or one invocation is ahead and the others are idle.
\<close>

definition raceInv :: "string \<Rightarrow> sys \<Rightarrow> invocation list \<times> sys \<Rightarrow> bool" where
  "raceInv bid s c \<longleftrightarrow>
     (case c of (vs, t) \<Rightarrow>
        (t = s \<and> (\<forall>v \<in> set vs. idle bid s v \<and>
                     (stage v = CountAudio \<or> stage v = Partial AtUpdate))) \<or>
        (\<exists>w < length vs. lead bid s (vs ! w) t \<and>
           (\<forall>j < length vs. j \<noteq> w \<longrightarrow> idle bid s (vs ! j))))"

text \<open>
  The same without a condition on the units. The stages of an invocation that has left
  the first check, whatever it has read; an invocation that has made no update of the
  first two checks: it has sent nothing and has at most marked the batch
  \<open>audio_complete\<close>; the invocation that has made the conditional update of the first
  check. The invariant: while the batch is \<open>pending\<close> no invocation has written, and
  from then on one invocation is in front and the others are calm.
\<close>

fun lateStage :: "stage \<Rightarrow> bool" where
  "lateStage FullUpdate = True"
| "lateStage AudioQuery = True"
| "lateStage AudioTotal = True"
| "lateStage (AudioWith n) = True"
| "lateStage AudioUpdate = True"
| "lateStage Finished = True"
| "lateStage _ = False"

definition calmStage :: "stage \<Rightarrow> bool" where
  "calmStage st \<longleftrightarrow>
     st = CountAudio \<or> st = Partial AtUpdate \<or> st = Partial Lost \<or> lateStage st"

definition calm :: "invocation \<Rightarrow> bool" where
  "calm v \<longleftrightarrow>
     observes v \<and> dispatched v = [] \<and> list_all (\<lambda>c. snd c = Audio_complete) (wrote v) \<and>
     calmStage (stage v)"

definition inFront :: "invocation \<Rightarrow> bool" where
  "inFront v \<longleftrightarrow>
     observes v \<and> winner v \<and> ((\<exists>p. stage v = Partial p \<and> beyond p) \<or> lateStage (stage v))"

definition safeInv :: "string \<Rightarrow> invocation list \<times> sys \<Rightarrow> bool" where
  "safeInv bid c \<longleftrightarrow>
     (case c of (vs, t) \<Rightarrow>
        sound t \<and>
        (\<exists>b'. tracker bid t = Some b' \<and>
           (if status b' = Pending
            then \<forall>v \<in> set vs. calm v \<and> wrote v = [] \<and>
                   (stage v = CountAudio \<or> stage v = Partial AtUpdate)
            else \<exists>w < length vs. inFront (vs ! w) \<and>
                   (\<forall>j < length vs. j \<noteq> w \<longrightarrow> calm (vs ! j)))))"

section \<open>Executions\<close>

text \<open>
  The handlers overlap at their awaits: while one waits for the store, for the audio
  worker or for the second between two requests, another runs. What the store sees is a
  sequence of operations, each applied as a whole, in an order the handlers do not
  choose. The operations that write a tracker are the calls of \<open>findOneAndUpdate\<close> on
  \<open>BatchTracker\<close>; below is every one the code makes, as its filter and its update: the
  count of an arrival (\<open>checkBatchCompletion\<close>) and its reconciliation
  (\<open>handleTimeoutBatch\<close>); the conditional updates from \<open>pending\<close> to \<open>partial_complete\<close>
  (\<open>handlePartialCompletion\<close>, \<open>triggerPartialCompletion\<close>), from \<open>pending\<close> and from
  \<open>partial_complete\<close> to \<open>complete\<close> (\<open>handleFullCompletion\<close>, \<open>handleTimeoutBatch\<close>), from
  \<open>failed\<close> to \<open>complete\<close> (\<open>recoverFailedBatch\<close>), from \<open>pending\<close> or \<open>partial_complete\<close>
  to \<open>failed\<close> (\<open>handleTimeoutBatch\<close>); the writes of \<open>audio_requested\<close> after a dispatch
  and of \<open>audio_complete\<close> by the sweep and by the deprecated handler, which select the
  batch by its id alone; the write of \<open>audio_complete\<close> of \<open>checkBatchAudioCompletion\<close>;
  the record of a failure report (\<open>handleAudioGenerationFailure\<close>).
\<close>

inductive codeWrite ::
  "(batchTracker \<Rightarrow> bool) \<Rightarrow> (nat \<Rightarrow> batchTracker \<Rightarrow> batchTracker) \<Rightarrow> bool" where
  countArrival:
    "codeWrite (\<lambda>b. batchId b = bid) (\<lambda>t b. b\<lparr>receivedCount := receivedCount b + 1\<rparr>)"
| setCount:
    "codeWrite (\<lambda>b. batchId b = bid) (\<lambda>t b. b\<lparr>receivedCount := n\<rparr>)"
| pendingToPartial:
    "codeWrite (\<lambda>b. batchId b = bid \<and> status b = Pending)
       (\<lambda>t b. b\<lparr>status := Partial_complete, partialCompletedAt := Some t\<rparr>)"
| pendingToComplete:
    "codeWrite (\<lambda>b. batchId b = bid \<and> status b = Pending)
       (\<lambda>t b. b\<lparr>status := Complete, completedAt := Some t\<rparr>)"
| partialToComplete:
    "codeWrite (\<lambda>b. batchId b = bid \<and> status b = Partial_complete)
       (\<lambda>t b. b\<lparr>status := Complete, completedAt := Some t\<rparr>)"
| failedToComplete:
    "codeWrite (\<lambda>b. batchId b = bid \<and> status b = Failed)
       (\<lambda>t b. b\<lparr>receivedCount := n, status := Complete, completedAt := Some t\<rparr>)"
| openToFailed:
    "codeWrite (\<lambda>b. batchId b = bid \<and> (status b = Pending \<or> status b = Partial_complete))
       (\<lambda>t b. b\<lparr>status := Failed, completedAt := Some t\<rparr>)"
| markRequested:
    "codeWrite (\<lambda>b. batchId b = bid)
       (\<lambda>t b. b\<lparr>status := Audio_requested, audioRequestedAt := Some t\<rparr>)"
| markComplete:
    "codeWrite (\<lambda>b. batchId b = bid)
       (\<lambda>t b. b\<lparr>status := Audio_complete, audioCompletedAt := Some t\<rparr>)"
| markCompleteWithUrl:
    "codeWrite (\<lambda>b. batchId b = bid)
       (\<lambda>t b. b\<lparr>status := Audio_complete, audioCompletedAt := Some t, audioUrl := Some url\<rparr>)"
| completeUnlessComplete:
    "codeWrite (\<lambda>b. batchId b = bid \<and> status b \<noteq> Audio_complete)
       (\<lambda>t b. b\<lparr>status := Audio_complete, audioCompletedAt := Some t\<rparr>)"
| reportFailure:
    "codeWrite (\<lambda>b. batchId b = bid)
       (\<lambda>t b. b\<lparr>status := Audio_failed, audioFailedAt := Some t,
                 failureReason := Some errorMessage\<rparr>)"

text \<open>
  One operation: one of these writes, which the store carries out or fails; the creation
  of a tracker, \<open>pending\<close> and with an id of its own (\<open>BatchTracker.create\<close> in the
  scheduled task that sends the articles out); the deletion of trackers
  (\<open>BatchTracker.deleteMany\<close> in \<open>cleanupOldBatches\<close>, which nothing calls); or any other
  operation (a query, a write of a summary or of a mix, a request to the audio worker,
  time passing), which leaves the trackers and the record of their changes of status as
  they are. An execution is a sequence of operations.
\<close>

inductive atomic :: "sys \<Rightarrow> sys \<Rightarrow> bool" where
  onTracker: "codeWrite P u \<Longrightarrow> atomic s (snd (batchFindOneAndUpdate P u s))"
| created:
    "status b = Pending \<Longrightarrow> batchId b \<notin> batchId ` set (batches s) \<Longrightarrow>
     atomic s (s\<lparr>batches := batches s @ [b]\<rparr>)"
| deleted: "atomic s (s\<lparr>batches := filter P (batches s)\<rparr>)"
| elsewhere: "batches s' = batches s \<Longrightarrow> transitions s' = transitions s \<Longrightarrow> atomic s s'"

inductive execution :: "sys \<Rightarrow> sys \<Rightarrow> bool" where
  start: "execution s s"
| step: "execution s t \<Longrightarrow> atomic t u \<Longrightarrow> execution s u"

text \<open>
  The changes of status of an execution: the four kinds of conditional update, and any
  change to \<open>audio_requested\<close>, \<open>audio_complete\<close> or \<open>audio_failed\<close>.
\<close>

definition permittedChange :: "status \<Rightarrow> status \<Rightarrow> bool" where
  "permittedChange old new \<longleftrightarrow>
     (old = Pending \<and> new = Partial_complete) \<or>
     ((old = Pending \<or> old = Partial_complete \<or> old = Failed) \<and> new = Complete) \<or>
     ((old = Pending \<or> old = Partial_complete) \<and> new = Failed) \<or>
     new = Audio_requested \<or> new = Audio_complete \<or> new = Audio_failed"

section \<open>The store and the promises\<close>

lemma consumed_fields [simp]:
  "batches (consumed s) = batches s" "summaries (consumed s) = summaries s"
  "mixes (consumed s) = mixes s" "nextId (consumed s) = nextId s" "now (consumed s) = now s"
  "sent (consumed s) = sent s" "transitions (consumed s) = transitions s"
  "faults (consumed s) = tl (faults s)"
  by (simp_all add: consumed_def)

lemma consumed_nofault: "faults s = [] \<Longrightarrow> consumed s = s"
  by (simp add: consumed_def)

lemma storeFails_nofault: "faults s = [] \<Longrightarrow> \<not> storeFails s"
  by (simp add: storeFails_def)

lemma storeCall_eq:
  "storeCall f s =
     (if storeFails s then (Inl DbError, consumed s)
      else (Inr (fst (f (consumed s))), snd (f (consumed s))))"
proof (cases "faults s")
  case Nil
  have c: "consumed s = s" by (simp add: consumed_def Nil)
  have "storeCall f s = (Inr (fst (f s)), snd (f s))"
    by (simp add: storeCall_def Nil split: prod.split)
  then show ?thesis by (simp add: c storeFails_def Nil)
next
  case (Cons flt rest)
  then show ?thesis
    by (simp add: storeCall_def storeFails_def consumed_def split: prod.split)
qed

section \<open>The dispatcher's guard\<close>

text \<open>
  C7: a call of \<open>triggerAudioGeneration\<close> on a batch whose status is already
  \<open>audio_requested\<close>, \<open>audio_complete\<close> or \<open>audio_failed\<close> returns after its one query
  of the tracker: nothing is sent to the audio worker and no batch or unit is modified
  (the state is the one before the call, the outcome of that query used up). When the
  query itself fails, the call throws, and has sent and modified nothing either.
\<close>

theorem dispatcher_skips_processed_batch:
  assumes "tracker bid s = Some b"
    and "status b = Audio_requested \<or> status b = Audio_complete \<or> status b = Audio_failed"
  shows "case triggerAudioGeneration bid s of
           (r, s') \<Rightarrow>
             r = (if storeFails s then Inl DbError else Inr ()) \<and>
             sent s' = sent s \<and> batches s' = batches s \<and> summaries s' = summaries s \<and>
             mixes s' = mixes s \<and> transitions s' = transitions s"
  using assms
  by (simp add: triggerAudioGeneration_def tryCatch_def andThen_def batchFindOne_def
      storeCall_eq ret_def throw_def audioProcessed_def tracker_def)

theorem dispatcher_skips_processed_batch_witness:
  "tracker ''b1''
     (mkSys [mkBatch ''b1'' 2 1 Audio_requested 1000] [mkSummary 0 ''u1'' ''b1'' False] 5 [])
   = Some (mkBatch ''b1'' 2 1 Audio_requested 1000) \<and>
   (case triggerAudioGeneration ''b1''
      (mkSys [mkBatch ''b1'' 2 1 Audio_requested 1000] [mkSummary 0 ''u1'' ''b1'' False] 5 [])
    of (r, s') \<Rightarrow>
      r = Inr () \<and> sent s' = [] \<and> batches s' = [mkBatch ''b1'' 2 1 Audio_requested 1000] \<and>
      summaries s' = [mkSummary 0 ''u1'' ''b1'' False])"
  using dispatcher_skips_processed_batch
    [of "''b1''"
        "mkSys [mkBatch ''b1'' 2 1 Audio_requested 1000] [mkSummary 0 ''u1'' ''b1'' False] 5 []"
        "mkBatch ''b1'' 2 1 Audio_requested 1000"]
  by (simp add: tracker_def mkSys_def mkBatch_def storeFails_def split: prod.splits)

section \<open>Lists of documents\<close>

lemma find_updFirst_same:
  "(\<And>x. P x \<Longrightarrow> P (u x)) \<Longrightarrow> find P (updFirst P u xs) = map_option u (find P xs)"
  by (induction xs) auto

lemma find_updFirst_other:
  "(\<And>x. P x \<Longrightarrow> \<not> Q x \<and> \<not> Q (u x)) \<Longrightarrow> find Q (updFirst P u xs) = find Q xs"
  by (induction xs) auto

section \<open>Handlers that log, handlers that rethrow\<close>

lemma fst_tryCatch_logOnly: "fst (tryCatch m logOnly s) = Inr ()"
  by (cases "m s") (auto simp: tryCatch_def logOnly_def ret_def split: sum.splits)

lemma snd_tryCatch_logOnly: "snd (tryCatch m logOnly s) = snd (m s)"
  by (cases "m s") (auto simp: tryCatch_def logOnly_def ret_def split: sum.splits)

lemma tryCatch_throw: "tryCatch m throw = m"
  by (rule ext) (auto simp: tryCatch_def throw_def split: prod.splits sum.splits)

section \<open>The failure report of the audio worker\<close>

lemma failure_report_step:
  assumes "tracker bid s = Some b" and "\<not> storeFails s"
  shows "handleAudioGenerationFailure bid msg uid s =
           (Inr (), (consumed s)\<lparr>batches :=
               updFirst (\<lambda>x. batchId x = bid)
                 (\<lambda>x. x\<lparr>status := Audio_failed, audioFailedAt := Some (now s),
                         failureReason := Some msg\<rparr>) (batches s),
              transitions := transitions s @
                 (if status b = Audio_failed then [] else [(bid, status b, Audio_failed)])\<rparr>)"
proof -
  from assms(1) have "batchId b = bid"
    by (auto simp: tracker_def dest: find_Some_iff[THEN iffD1])
  with assms show ?thesis
    by (auto simp add: handleAudioGenerationFailure_def tryCatch_throw andThen_def
        batchFindOneAndUpdate_def storeCall_eq ret_def tracker_def)
qed

text \<open>
  C8: an "audio generation failed" request that carries \<open>batchId\<close>, \<open>errorMessage\<close> and
  \<open>userId\<close>, on a batch that exists and with the store working, is answered with 200 and
  leaves the batch with status \<open>audio_failed\<close>, \<open>audioFailedAt\<close> the time of the call and
  \<open>failureReason\<close> the message, whatever the batch was before: any status, terminal ones
  and \<open>audio_failed\<close> itself included, so that of two reports the later one is the one
  recorded. No other batch, no unit and no request to the audio worker is touched.
\<close>

theorem failure_report_unconditional:
  assumes "tracker bid s = Some b" and "bid \<noteq> []" and "msg \<noteq> []" and "uid \<noteq> []"
    and "\<not> storeFails s"
  shows "case handleAudioGenerationFailureWebhook (Some bid) (Some msg) (Some uid) s of
           (resp, s') \<Rightarrow>
             resp = Status200 (FailureProcessed bid) \<and>
             tracker bid s' =
               Some (b\<lparr>status := Audio_failed, audioFailedAt := Some (now s),
                       failureReason := Some msg\<rparr>) \<and>
             (\<forall>k. k \<noteq> bid \<longrightarrow> tracker k s' = tracker k s) \<and>
             summaries s' = summaries s \<and> sent s' = sent s"
  using assms
  by (auto simp add: handleAudioGenerationFailureWebhook_def truthy_def
       failure_report_step [OF assms(1,5)] tracker_def find_updFirst_same
       intro!: find_updFirst_other)

theorem failure_report_unconditional_witness:
  "tracker ''b1''
     (mkSys [(mkBatch ''b1'' 1 1 Audio_failed 1000)
               \<lparr>audioFailedAt := Some 1, failureReason := Some ''first report''\<rparr>] [] 5 [])
     = Some ((mkBatch ''b1'' 1 1 Audio_failed 1000)
               \<lparr>audioFailedAt := Some 1, failureReason := Some ''first report''\<rparr>) \<and>
   fst (handleAudioGenerationFailureWebhook (Some ''b1'') (Some ''second report'') (Some ''u1'')
          (mkSys [(mkBatch ''b1'' 1 1 Audio_failed 1000)
                    \<lparr>audioFailedAt := Some 1, failureReason := Some ''first report''\<rparr>] [] 5 []))
     = Status200 (FailureProcessed ''b1'') \<and>
   tracker ''b1''
     (snd (handleAudioGenerationFailureWebhook (Some ''b1'') (Some ''second report'')
             (Some ''u1'')
             (mkSys [(mkBatch ''b1'' 1 1 Audio_failed 1000)
                       \<lparr>audioFailedAt := Some 1, failureReason := Some ''first report''\<rparr>]
                [] 5 [])))
     = Some ((mkBatch ''b1'' 1 1 Audio_failed 1000)
              \<lparr>audioFailedAt := Some 5, failureReason := Some ''second report''\<rparr>)"
  using failure_report_unconditional
    [of "''b1''"
        "mkSys [(mkBatch ''b1'' 1 1 Audio_failed 1000)
                  \<lparr>audioFailedAt := Some 1, failureReason := Some ''first report''\<rparr>] [] 5 []"
        "(mkBatch ''b1'' 1 1 Audio_failed 1000)
           \<lparr>audioFailedAt := Some 1, failureReason := Some ''first report''\<rparr>"
        "''second report''" "''u1''"]
  by (simp add: tracker_def mkSys_def mkBatch_def storeFails_def split: prod.splits)

section \<open>Running the engine on a given state\<close>

lemmas engine_defs =
  arrival_def handleSummaryWebhook_def mkSys_def mkBatch_def mkSummary_def saveSummary_def
  summaryCreate_def validSummary_def storeCall_def andThen_def tryCatch_def ret_def throw_def
  truthy_def checkBatchCompletion_def batchFindOneAndUpdate_def summaryCountDocuments_def
  atLeastHalf_def handlePartialCompletion_def handleFullCompletion_def
  triggerAudioGeneration_def markAudioRequested_def markAudioComplete_def batchFindOne_def
  batchFind_def summaryFind_def audioProcessed_def sendIndividualSummaryForAudio_def delay_def
  logOnly_def checkBatchAudioCompletion_def Let_def dispatchedFor_def unitsLackingAudio_def
  unitsOf_def tracker_def

section \<open>Failures of the store during the summary webhook\<close>

lemma summaryCreate_eq:
  "summaryCreate text uid stype title bid s =
     (if \<not> validSummary text uid stype title then (Inl ValidationError, s)
      else if storeFails s then (Inl DbError, consumed s)
      else (Inr (newSummaryDoc s text uid stype title bid),
            (consumed s)\<lparr>summaries := summaries s @ [newSummaryDoc s text uid stype title bid],
                          nextId := nextId s + 1\<rparr>))"
  by (simp add: summaryCreate_def throw_def storeCall_eq Let_def newSummaryDoc_def)

lemma checkBatchCompletion_unknown:
  "tracker bid s = None \<Longrightarrow> checkBatchCompletion bid s = (Inr (), consumed s)"
  by (simp add: checkBatchCompletion_def tryCatch_def andThen_def batchFindOneAndUpdate_def
      storeCall_eq logOnly_def ret_def tracker_def)

lemma fst_checkBatchCompletion: "fst (checkBatchCompletion bid s) = Inr ()"
  by (simp add: checkBatchCompletion_def fst_tryCatch_logOnly)

text \<open>
  C10: a "summary" request whose \<open>batchId\<close> is the id of no tracker, with fields the schema
  accepts and the store working for the creation: the unit is written, the answer is 200
  with the unit in it, and no tracker is changed (nor is anything sent to the audio
  worker), whether or not the lookup of the tracker that follows fails.
\<close>

theorem unit_of_unknown_batch_is_kept:
  assumes "validSummary text uid stype title" and "\<not> storeFails s"
    and "tracker bid s = None"
  shows "case handleSummaryWebhook text uid stype title (Some bid) s of
           (resp, s') \<Rightarrow>
             resp = Status200 (SummaryReceived (newSummaryDoc s text uid stype title (Some bid))) \<and>
             summaries s' = summaries s @ [newSummaryDoc s text uid stype title (Some bid)] \<and>
             batches s' = batches s \<and> transitions s' = transitions s \<and> sent s' = sent s"
proof -
  let ?s1 = "(consumed s)\<lparr>summaries := summaries s @ [newSummaryDoc s text uid stype title (Some bid)],
                          nextId := nextId s + 1\<rparr>"
  have "tracker bid ?s1 = None" using assms(3) by (simp add: tracker_def)
  then have "checkBatchCompletion bid ?s1 = (Inr (), consumed ?s1)"
    by (rule checkBatchCompletion_unknown)
  then show ?thesis using assms(1,2)
    by (simp add: handleSummaryWebhook_def saveSummary_def tryCatch_throw andThen_def
        summaryCreate_eq truthy_def ret_def)
qed

theorem unit_of_unknown_batch_is_kept_witness:
  "validSummary ''text'' ''u1'' (Some ''user'') (Some ''Daily Mix'') \<and>
   \<not> storeFails (mkSys [mkBatch ''b1'' 2 0 Pending 1000] [] 5 [False, True]) \<and>
   tracker ''b2'' (mkSys [mkBatch ''b1'' 2 0 Pending 1000] [] 5 [False, True]) = None \<and>
   fst (handleSummaryWebhook ''text'' ''u1'' (Some ''user'') (Some ''Daily Mix'') (Some ''b2'')
          (mkSys [mkBatch ''b1'' 2 0 Pending 1000] [] 5 [False, True]))
     = Status200 (SummaryReceived (mkSummary 0 ''u1'' ''b2'' False)) \<and>
   batches (snd (handleSummaryWebhook ''text'' ''u1'' (Some ''user'') (Some ''Daily Mix'') (Some ''b2'')
          (mkSys [mkBatch ''b1'' 2 0 Pending 1000] [] 5 [False, True])))
     = [mkBatch ''b1'' 2 0 Pending 1000] \<and>
   summaries (snd (handleSummaryWebhook ''text'' ''u1'' (Some ''user'') (Some ''Daily Mix'') (Some ''b2'')
          (mkSys [mkBatch ''b1'' 2 0 Pending 1000] [] 5 [False, True])))
     = [mkSummary 0 ''u1'' ''b2'' False]"
  using unit_of_unknown_batch_is_kept
    [of "''text''" "''u1''" "Some ''user''" "Some ''Daily Mix''"
        "mkSys [mkBatch ''b1'' 2 0 Pending 1000] [] 5 [False, True]" "''b2''"]
  by (simp add: tracker_def mkSys_def mkBatch_def mkSummary_def storeFails_def validSummary_def
      newSummaryDoc_def split: prod.splits)

text \<open>
  C9, as stated: a failure of the store while a "summary" request is handled gives a
  failed response. It does not when the failure is in the completion check: below the
  unit is created, the update of the tracker fails, the answer is 200 and the tracker
  has not counted the unit.
\<close>

theorem ingress_failure_swallowed_counterexample:
  "storeFailedDuring (mkSys [mkBatch ''b1'' 2 0 Pending 1000] [] 5 [False, True])
     (snd (handleSummaryWebhook ''text'' ''u1'' (Some ''user'') (Some ''Daily Mix'') (Some ''b1'')
             (mkSys [mkBatch ''b1'' 2 0 Pending 1000] [] 5 [False, True]))) \<and>
   fst (handleSummaryWebhook ''text'' ''u1'' (Some ''user'') (Some ''Daily Mix'') (Some ''b1'')
          (mkSys [mkBatch ''b1'' 2 0 Pending 1000] [] 5 [False, True]))
     = Status200 (SummaryReceived (mkSummary 0 ''u1'' ''b1'' False)) \<and>
   batches (snd (handleSummaryWebhook ''text'' ''u1'' (Some ''user'') (Some ''Daily Mix'') (Some ''b1'')
                   (mkSys [mkBatch ''b1'' 2 0 Pending 1000] [] 5 [False, True])))
     = [mkBatch ''b1'' 2 0 Pending 1000]"
  by code_simp

text \<open>
  A request without \<open>summaryType\<close> and \<open>summaryTitle\<close> is not refused: the unit is stored
  with the defaults of the schema. A request whose \<open>summaryType\<close> is given and is not in
  the enum is refused, and so is one without \<open>userId\<close>.
\<close>

lemma summary_defaults_example:
  "fst (handleSummaryWebhook ''text'' ''u1'' None None (Some ''b1'')
          (mkSys [mkBatch ''b1'' 2 0 Pending 1000] [] 5 []))
     = Status200 (SummaryReceived (mkSummary 0 ''u1'' ''b1'' False))"
  "fst (handleSummaryWebhook ''text'' ''u1'' (Some ''weekly'') None (Some ''b1'')
          (mkSys [mkBatch ''b1'' 2 0 Pending 1000] [] 5 []))
     = Status500 ValidationError"
  "fst (handleSummaryWebhook ''text'' [] None None (Some ''b1'')
          (mkSys [mkBatch ''b1'' 2 0 Pending 1000] [] 5 []))
     = Status500 ValidationError"
  by (simp_all add: engine_defs)

text \<open>
  C9, amended: the response to a "summary" request is 500 exactly when the creation of
  the unit fails (the schema refuses it, or the store fails on it); every failure of the
  store after that, in the completion check, is caught and logged there, and the answer
  is 200 with the unit. The periodic maintenance task never throws.
\<close>

theorem ingress_failure_propagation:
  "fst (handleSummaryWebhook text uid stype title bid s) =
     (if \<not> validSummary text uid stype title then Status500 ValidationError
      else if storeFails s then Status500 DbError
      else Status200 (SummaryReceived (newSummaryDoc s text uid stype title bid))) \<and>
   fst (runPeriodicMaintenance s) = Inr ()"
proof -
  have "fst (runPeriodicMaintenance s) = Inr ()"
    by (simp add: runPeriodicMaintenance_def fst_tryCatch_logOnly)
  moreover have "fst (handleSummaryWebhook text uid stype title bid s) =
     (if \<not> validSummary text uid stype title then Status500 ValidationError
      else if storeFails s then Status500 DbError
      else Status200 (SummaryReceived (newSummaryDoc s text uid stype title bid)))"
  proof (cases "truthy bid")
    case True
    let ?s1 = "(consumed s)\<lparr>summaries := summaries s @ [newSummaryDoc s text uid stype title bid],
                          nextId := nextId s + 1\<rparr>"
    obtain s2 where "checkBatchCompletion (the bid) ?s1 = (Inr (), s2)"
      using fst_checkBatchCompletion [of "the bid" ?s1]
      by (cases "checkBatchCompletion (the bid) ?s1") auto
    with True show ?thesis
      by (simp add: handleSummaryWebhook_def saveSummary_def tryCatch_throw andThen_def
        summaryCreate_eq ret_def)
  next
    case False
    then show ?thesis
      by (simp add: handleSummaryWebhook_def saveSummary_def tryCatch_throw andThen_def
        summaryCreate_eq ret_def)
  qed
  ultimately show ?thesis by simp
qed

section \<open>A batch of four units\<close>

text \<open>
  C2 says that a pending batch that expects four units is \<open>partial_complete\<close> after two
  arrivals and \<open>complete\<close> after four, with one dispatch at the second arrival and none
  after. The code run on that input: the second arrival takes the batch to
  \<open>partial_complete\<close>, dispatches units 0 and 1 and then writes \<open>audio_requested\<close>; the
  third and fourth arrivals find a status that is neither \<open>pending\<close> nor
  \<open>partial_complete\<close>, so \<open>handleFullCompletion\<close> is not called: the batch stays
  \<open>audio_requested\<close> with all four units counted, is never \<open>complete\<close>, and units 2 and
  3 are never sent to the audio worker.
\<close>

theorem four_arrivals_never_complete:
  "map status (batches (run [arrival ''u1'' ''b1'', arrival ''u2'' ''b1'']
                         (mkSys [mkBatch ''b1'' 4 0 Pending 1800000] [] 5 [])))
     = [Audio_requested] \<and>
   dispatchedFor ''b1'' (run [arrival ''u1'' ''b1'', arrival ''u2'' ''b1'']
                          (mkSys [mkBatch ''b1'' 4 0 Pending 1800000] [] 5 []))
     = [0, 1] \<and>
   map status (batches (run [arrival ''u1'' ''b1'', arrival ''u2'' ''b1'',
                             arrival ''u3'' ''b1'', arrival ''u4'' ''b1'']
                         (mkSys [mkBatch ''b1'' 4 0 Pending 1800000] [] 5 [])))
     = [Audio_requested] \<and>
   map receivedCount (batches (run [arrival ''u1'' ''b1'', arrival ''u2'' ''b1'',
                                    arrival ''u3'' ''b1'', arrival ''u4'' ''b1'']
                                (mkSys [mkBatch ''b1'' 4 0 Pending 1800000] [] 5 [])))
     = [4] \<and>
   dispatchedFor ''b1'' (run [arrival ''u1'' ''b1'', arrival ''u2'' ''b1'',
                              arrival ''u3'' ''b1'', arrival ''u4'' ''b1'']
                          (mkSys [mkBatch ''b1'' 4 0 Pending 1800000] [] 5 []))
     = [0, 1] \<and>
   map summaryId (unitsLackingAudio ''b1''
                    (run [arrival ''u1'' ''b1'', arrival ''u2'' ''b1'',
                          arrival ''u3'' ''b1'', arrival ''u4'' ''b1'']
                       (mkSys [mkBatch ''b1'' 4 0 Pending 1800000] [] 5 [])))
     = [0, 1, 2, 3] \<and>
   transitions (run [arrival ''u1'' ''b1'', arrival ''u2'' ''b1'',
                     arrival ''u3'' ''b1'', arrival ''u4'' ''b1'']
                  (mkSys [mkBatch ''b1'' 4 0 Pending 1800000] [] 5 []))
     = [(''b1'', Pending, Partial_complete), (''b1'', Partial_complete, Audio_requested)]"
  by (simp add: engine_defs)

section \<open>Relations between the state before and after\<close>

subsection \<open>Generic rules\<close>

lemma presI: "(\<And>s. R s (snd (m s))) \<Longrightarrow> pres R m"
  by (simp add: pres_def)

lemma presD: "pres R m \<Longrightarrow> R s (snd (m s))"
  by (simp add: pres_def)

lemma pres_ret: "reflp R \<Longrightarrow> pres R (ret x)"
  by (simp add: pres_def ret_def reflp_def)

lemma pres_throw: "reflp R \<Longrightarrow> pres R (throw e)"
  by (simp add: pres_def throw_def reflp_def)

lemma pres_logOnly: "reflp R \<Longrightarrow> pres R (logOnly e)"
  by (simp add: logOnly_def pres_ret)

lemma pres_andThen:
  assumes "transp R" and "pres R m" and "\<And>x. pres R (f x)"
  shows "pres R (andThen m f)"
proof (rule presI)
  fix s
  show "R s (snd (andThen m f s))"
  proof (cases "m s")
    case (Pair r s1)
    have a: "R s s1" using presD [OF assms(2), of s] Pair by simp
    show ?thesis
    proof (cases r)
      case (Inl e)
      with Pair a show ?thesis by (simp add: andThen_def)
    next
      case (Inr x)
      have "R s1 (snd (f x s1))" using presD [OF assms(3)] .
      with a have "R s (snd (f x s1))" using assms(1) by (blast dest: transpD)
      with Pair Inr show ?thesis by (simp add: andThen_def)
    qed
  qed
qed

lemma pres_tryCatch:
  assumes "transp R" and "pres R m" and "\<And>e. pres R (h e)"
  shows "pres R (tryCatch m h)"
proof (rule presI)
  fix s
  show "R s (snd (tryCatch m h s))"
  proof (cases "m s")
    case (Pair r s1)
    have a: "R s s1" using presD [OF assms(2), of s] Pair by simp
    show ?thesis
    proof (cases r)
      case (Inr x)
      with Pair a show ?thesis by (simp add: tryCatch_def)
    next
      case (Inl e)
      have "R s1 (snd (h e s1))" using presD [OF assms(3)] .
      with a have "R s (snd (h e s1))" using assms(1) by (blast dest: transpD)
      with Pair Inl show ?thesis by (simp add: tryCatch_def)
    qed
  qed
qed

lemma pres_if: "pres R m \<Longrightarrow> pres R n \<Longrightarrow> pres R (if c then m else n)"
  by simp

lemma pres_case_option:
  "pres R m \<Longrightarrow> (\<And>x. pres R (f x)) \<Longrightarrow> pres R (case r of None \<Rightarrow> m | Some x \<Rightarrow> f x)"
  by (cases r) simp_all

lemma pres_forEach:
  assumes "reflp R" and "transp R" and "\<And>x. pres R (f x)"
  shows "pres R (forEach f xs)"
  by (induction xs) (simp_all add: pres_ret pres_andThen assms)

lemma pres_storeCall:
  assumes "transp R" and "\<And>s. R s (consumed s)" and "\<And>s. R s (snd (f s))"
  shows "pres R (storeCall f)"
proof (rule presI)
  fix s
  have "R (consumed s) (snd (f (consumed s)))" by (rule assms(3))
  with assms(2) [of s] have "R s (snd (f (consumed s)))"
    using assms(1) by (blast dest: transpD)
  with assms(2) [of s] show "R s (snd (storeCall f s))"
    by (simp add: storeCall_eq)
qed

lemma pres_readClock: "reflp R \<Longrightarrow> pres R (\<lambda>s. ret (g s) s)"
  by (simp add: pres_def ret_def reflp_def)


subsection \<open>evolves\<close>

lemma trackerStep_refl: "trackerStep b b"
  by (simp add: trackerStep_def)

lemma trackerStep_trans: "trackerStep a b \<Longrightarrow> trackerStep b c \<Longrightarrow> trackerStep a c"
  by (simp add: trackerStep_def)

lemma trackerSteps_ids:
  "list_all2 trackerStep xs ys \<Longrightarrow> map batchId ys = map batchId xs"
  by (induction rule: list_all2_induct) (simp_all add: trackerStep_def)

lemma evolves_frame:
  "batches s' = batches s \<Longrightarrow> transitions s' = transitions s \<Longrightarrow> faults s' = faults s
   \<Longrightarrow> evolves A s s'"
  unfolding evolves_def
  by (auto simp: list_all2_same trackerStep_refl intro: exI [of _ 0])

lemma evolves_reflp: "reflp (evolves A)"
  by (rule reflpI) (simp add: evolves_frame)

lemma evolves_transp: "transp (evolves A)"
proof (rule transpI)
  fix s s1 s2
  assume a: "evolves A s s1" and b: "evolves A s1 s2"
  show "evolves A s s2"
    unfolding evolves_def
  proof (intro impI)
    assume d: "distinctIds s"
    with a have a1: "list_all2 trackerStep (batches s) (batches s1)"
      and a2: "\<exists>ext. transitions s1 = transitions s @ ext \<and>
               (\<forall>t \<in> set ext. A (fst (snd t)) (snd (snd t)))"
      and a3: "\<exists>n. faults s1 = drop n (faults s)"
      by (simp_all add: evolves_def)
    from a1 d have "distinctIds s1"
      by (simp add: distinctIds_def trackerSteps_ids)
    with b have b1: "list_all2 trackerStep (batches s1) (batches s2)"
      and b2: "\<exists>ext. transitions s2 = transitions s1 @ ext \<and>
               (\<forall>t \<in> set ext. A (fst (snd t)) (snd (snd t)))"
      and b3: "\<exists>n. faults s2 = drop n (faults s1)"
      by (simp_all add: evolves_def)
    have c1: "list_all2 trackerStep (batches s) (batches s2)"
      using a1 b1 by (rule list_all2_trans [rotated]) (rule trackerStep_trans)
    from a2 b2 obtain e1 e2 where
      "transitions s1 = transitions s @ e1" "\<forall>t \<in> set e1. A (fst (snd t)) (snd (snd t))"
      "transitions s2 = transitions s1 @ e2" "\<forall>t \<in> set e2. A (fst (snd t)) (snd (snd t))"
      by blast
    then have c2: "\<exists>ext. transitions s2 = transitions s @ ext \<and>
               (\<forall>t \<in> set ext. A (fst (snd t)) (snd (snd t)))"
      by (intro exI [of _ "e1 @ e2"]) auto
    from a3 b3 obtain n m where "faults s1 = drop n (faults s)" "faults s2 = drop m (faults s1)"
      by blast
    then have c3: "\<exists>n. faults s2 = drop n (faults s)"
      by (intro exI [of _ "n + m"]) (simp add: add.commute)
    from c1 c2 c3 show "list_all2 trackerStep (batches s) (batches s2) \<and>
        (\<exists>ext. transitions s2 = transitions s @ ext \<and>
               (\<forall>t \<in> set ext. A (fst (snd t)) (snd (snd t)))) \<and>
        (\<exists>n. faults s2 = drop n (faults s))" by blast
  qed
qed

lemma evolves_consumed: "evolves A s (consumed s)"
  unfolding evolves_def
  by (auto simp: list_all2_same trackerStep_refl drop_Suc intro: exI [of _ "Suc 0"])

lemma evolves_mono:
  "(\<And>old new. A old new \<Longrightarrow> B old new) \<Longrightarrow> evolves A s s' \<Longrightarrow> evolves B s s'"
  unfolding evolves_def by blast

lemmas evolves_ret = pres_ret [OF evolves_reflp]
lemmas evolves_throw = pres_throw [OF evolves_reflp]
lemmas evolves_logOnly = pres_logOnly [OF evolves_reflp]
lemmas evolves_andThen = pres_andThen [OF evolves_transp]
lemmas evolves_tryCatch = pres_tryCatch [OF evolves_transp]
lemmas evolves_forEach = pres_forEach [OF evolves_reflp evolves_transp]
lemmas evolves_readClock = pres_readClock [OF evolves_reflp]

lemma evolves_query:
  "(\<And>s. snd (f s) = s) \<Longrightarrow> pres (evolves A) (storeCall f)"
  by (rule pres_storeCall [OF evolves_transp evolves_consumed]) (simp add: evolves_frame)

lemma evolves_batchFindOne: "pres (evolves A) (batchFindOne P)"
  unfolding batchFindOne_def by (rule evolves_query) simp

lemma evolves_batchFind: "pres (evolves A) (batchFind P)"
  unfolding batchFind_def by (rule evolves_query) simp

lemma evolves_summaryCountDocuments: "pres (evolves A) (summaryCountDocuments P)"
  unfolding summaryCountDocuments_def by (rule evolves_query) simp

lemma evolves_summaryFind: "pres (evolves A) (summaryFind P)"
  unfolding summaryFind_def by (rule evolves_query) simp

lemma evolves_summaryFindOneAndUpdate: "pres (evolves A) (summaryFindOneAndUpdate P u)"
  unfolding summaryFindOneAndUpdate_def
  by (rule pres_storeCall [OF evolves_transp evolves_consumed])
     (simp add: evolves_frame split: option.split)

lemma evolves_summaryCreate: "pres (evolves A) (summaryCreate text uid stype title bid)"
  unfolding summaryCreate_def
  by (auto simp: Let_def evolves_frame
      intro!: pres_if evolves_throw pres_storeCall [OF evolves_transp evolves_consumed])

lemma evolves_mixCreate: "pres (evolves A) (mixCreate m)"
  unfolding mixCreate_def
  by (rule pres_storeCall [OF evolves_transp evolves_consumed]) (simp add: evolves_frame)

lemma sendAll_fields [simp]:
  "batches (sendAll xs bid s) = batches s" "summaries (sendAll xs bid s) = summaries s"
  "transitions (sendAll xs bid s) = transitions s" "faults (sendAll xs bid s) = faults s"
  "mixes (sendAll xs bid s) = mixes s" "nextId (sendAll xs bid s) = nextId s"
  by (induction xs bid s rule: sendAll.induct)
     (simp_all add: sendIndividualSummaryForAudio_def delay_def)

lemma evolves_sendAll: "pres (evolves A) (\<lambda>s. (Inr (), sendAll xs bid s))"
  by (rule presI) (simp add: evolves_frame)

lemma evolves_triggerAudioGeneration: "pres (evolves A) (triggerAudioGeneration bid)"
  unfolding triggerAudioGeneration_def
  by (intro evolves_tryCatch evolves_andThen evolves_batchFindOne pres_if evolves_ret
      evolves_summaryFind evolves_summaryCountDocuments evolves_sendAll evolves_throw)


subsection \<open>Updates of a tracker\<close>

lemma find_id_and:
  "distinct (map batchId xs) \<Longrightarrow>
   find (\<lambda>b. batchId b = bid \<and> Q b) xs =
     (case find (\<lambda>b. batchId b = bid) xs of
        None \<Rightarrow> None | Some b \<Rightarrow> if Q b then Some b else None)"
proof (induction xs)
  case Nil
  show ?case by simp
next
  case (Cons x xs)
  show ?case
  proof (cases "batchId x = bid")
    case False
    with Cons show ?thesis by simp
  next
    case True
    with Cons.prems have "\<forall>y \<in> set xs. batchId y \<noteq> bid" by (auto simp: image_iff)
    then have "find (\<lambda>b. batchId b = bid \<and> Q b) xs = None"
      by (auto simp: find_None_iff)
    with True show ?thesis by simp
  qed
qed

lemma updFirst_id_and:
  "distinct (map batchId xs) \<Longrightarrow>
   updFirst (\<lambda>b. batchId b = bid \<and> Q b) f xs =
     (case find (\<lambda>b. batchId b = bid) xs of
        None \<Rightarrow> xs | Some b \<Rightarrow> if Q b then updFirst (\<lambda>b. batchId b = bid) f xs else xs)"
proof (induction xs)
  case Nil
  show ?case by simp
next
  case (Cons x xs)
  show ?case
  proof (cases "batchId x = bid")
    case False
    with Cons show ?thesis by (simp split: option.splits)
  next
    case True
    with Cons.prems have n: "\<forall>y \<in> set xs. batchId y \<noteq> bid" by (auto simp: image_iff)
    have "updFirst (\<lambda>b. batchId b = bid \<and> Q b) f xs = xs"
      using n by (induction xs) simp_all
    with True show ?thesis by simp
  qed
qed

lemma find_id_updFirst:
  "(\<And>b. batchId (f b) = batchId b) \<Longrightarrow>
   find (\<lambda>b. batchId b = k) (updFirst (\<lambda>b. batchId b = bid) f xs) =
     (if k = bid then map_option f (find (\<lambda>b. batchId b = bid) xs)
      else find (\<lambda>b. batchId b = k) xs)"
  by (induction xs) auto

lemma map_batchId_updFirst:
  "(\<And>b. batchId (f b) = batchId b) \<Longrightarrow> map batchId (updFirst P f xs) = map batchId xs"
  by (induction xs) auto

lemma list_all2_updFirst:
  "(\<And>x. R x x) \<Longrightarrow> (\<And>b. find P xs = Some b \<Longrightarrow> R b (f b)) \<Longrightarrow>
   list_all2 R xs (updFirst P f xs)"
proof (induction xs)
  case Nil
  show ?case by simp
next
  case (Cons x xs)
  show ?case
  proof (cases "P x")
    case True
    with Cons.prems show ?thesis by (simp add: list_all2_same)
  next
    case False
    with Cons show ?thesis by simp
  qed
qed

lemma evolves_update_at:
  assumes "\<And>b. find P (batches s) = Some b \<Longrightarrow> trackerStep b (u (now s) b)"
    and "\<And>b. find P (batches s) = Some b \<Longrightarrow>
            status (u (now s) b) = status b \<or> A (status b) (status (u (now s) b))"
  shows "evolves A s (snd (batchFindOneAndUpdate P u s))"
proof (cases "storeFails s")
  case True
  then show ?thesis by (simp add: batchFindOneAndUpdate_def storeCall_eq evolves_consumed)
next
  case False
  show ?thesis
  proof (cases "find P (batches s)")
    case None
    with False show ?thesis
      by (simp add: batchFindOneAndUpdate_def storeCall_eq evolves_consumed)
  next
    case (Some b)
    have l: "list_all2 trackerStep (batches s) (updFirst P (u (now s)) (batches s))"
      by (rule list_all2_updFirst) (simp_all add: trackerStep_refl assms(1))
    have "status (u (now s) b) = status b \<or> A (status b) (status (u (now s) b))"
      using Some by (rule assms(2))
    with False Some l show ?thesis
      unfolding evolves_def
      by (auto simp: batchFindOneAndUpdate_def storeCall_eq drop_Suc intro: exI [of _ "Suc 0"])
  qed
qed

lemma evolves_batchFindOneAndUpdate:
  assumes "\<And>t b. P b \<Longrightarrow> trackerStep b (u t b)"
    and "\<And>t b. P b \<Longrightarrow> status (u t b) = status b \<or> A (status b) (status (u t b))"
  shows "pres (evolves A) (batchFindOneAndUpdate P u)"
proof (rule presI)
  fix s
  show "evolves A s (snd (batchFindOneAndUpdate P u s))"
  proof (rule evolves_update_at)
    fix b
    assume "find P (batches s) = Some b"
    then have "P b" by (auto simp: find_Some_iff)
    then show "trackerStep b (u (now s) b)"
      and "status (u (now s) b) = status b \<or> A (status b) (status (u (now s) b))"
      using assms by blast+
  qed
qed

lemma cas_result:
  assumes "distinctIds s" and "\<And>t b. batchId (u t b) = batchId b"
    and "batchFindOneAndUpdate (\<lambda>b. batchId b = bid \<and> Q b) u s = (Inr (Some x), s1)"
  shows "\<exists>b. tracker bid s = Some b \<and> Q b \<and> x = u (now s) b \<and> tracker bid s1 = Some x"
proof -
  from assms(1) have d: "distinct (map batchId (batches s))" by (simp add: distinctIds_def)
  show ?thesis
    using assms(3)
    by (auto simp: batchFindOneAndUpdate_def storeCall_eq tracker_def find_id_and [OF d]
        updFirst_id_and [OF d] find_id_updFirst assms(2)
        split: if_splits option.splits)
qed


subsection \<open>A conditional update and what follows it\<close>

lemma evolves_distinct: "evolves A s s' \<Longrightarrow> distinctIds s \<Longrightarrow> distinctIds s'"
  by (auto simp: evolves_def distinctIds_def dest: trackerSteps_ids)

lemma evolves_trans: "evolves A s s1 \<Longrightarrow> evolves A s1 s2 \<Longrightarrow> evolves A s s2"
  using evolves_transp [of A] by (blast dest: transpD)

lemma snd_andThen_unit: "snd (andThen m (\<lambda>_. ret ()) s) = snd (m s)"
  by (cases "m s") (auto simp: andThen_def ret_def split: sum.splits)

lemma evolves_cas_block:
  assumes id: "\<And>t b. batchId (u t b) = batchId b"
    and ex: "\<And>t b. expectedCount (u t b) = expectedCount b"
    and st: "\<And>t b. status (u t b) = Y"
    and X: "\<not> settled X" and A: "A X Y"
    and K: "\<And>s1 b1. distinctIds s1 \<Longrightarrow> tracker bid s1 = Some b1 \<Longrightarrow> status b1 = Y
              \<Longrightarrow> evolves A s1 (snd (K s1))"
  shows "pres (evolves A)
           (andThen (batchFindOneAndUpdate (\<lambda>b. batchId b = bid \<and> status b = X) u)
              (\<lambda>r. case r of None \<Rightarrow> ret () | Some x \<Rightarrow> K))"
proof (rule presI)
  fix s
  let ?cas = "batchFindOneAndUpdate (\<lambda>b. batchId b = bid \<and> status b = X) u"
  let ?k = "\<lambda>r. case r of None \<Rightarrow> ret () | Some x \<Rightarrow> K"
  have "pres (evolves A) ?cas"
    by (rule evolves_batchFindOneAndUpdate) (auto simp: trackerStep_def id ex st X A)
  then have e1: "evolves A s (snd (?cas s))" by (rule presD)
  show "evolves A s (snd (andThen ?cas ?k s))"
  proof (cases "distinctIds s")
    case False
    then show ?thesis by (simp add: evolves_def)
  next
    case True
    obtain r s1 where c: "?cas s = (r, s1)" by (cases "?cas s")
    from e1 c have e: "evolves A s s1" by simp
    from e True have d1: "distinctIds s1" by (rule evolves_distinct)
    show ?thesis
    proof (cases r)
      case (Inl err)
      with c e show ?thesis by (simp add: andThen_def)
    next
      case (Inr res)
      show ?thesis
      proof (cases res)
        case None
        with c e Inr show ?thesis by (simp add: andThen_def ret_def)
      next
        case (Some x)
        from c Inr Some have "?cas s = (Inr (Some x), s1)" by simp
        from cas_result [OF True id this] obtain b
          where "tracker bid s1 = Some x" and "x = u (now s) b" by blast
        then have "evolves A s1 (snd (K s1))" using K [OF d1, of x] st by simp
        with e have "evolves A s (snd (K s1))" by (rule evolves_trans)
        with c Inr Some show ?thesis by (simp add: andThen_def)
      qed
    qed
  qed
qed

lemma triggerAudioGeneration_batches:
  "batches (snd (triggerAudioGeneration bid s)) = batches s"
  by (simp add: triggerAudioGeneration_def tryCatch_throw andThen_def batchFindOne_def
      summaryFind_def summaryCountDocuments_def storeCall_eq ret_def)

lemma evolves_markAudioRequested_at:
  assumes "tracker bid s = Some b" and "status b = Partial_complete \<or> status b = Complete"
  shows "evolves lawfulChange s (snd (markAudioRequested bid s))"
  unfolding markAudioRequested_def snd_andThen_unit
  by (rule evolves_update_at)
     (use assms in \<open>auto simp: tracker_def trackerStep_def settled_def lawfulChange_def
        listedTransition_def\<close>)

lemma evolves_dispatch_then_mark:
  assumes "tracker bid s = Some b" and "status b = Partial_complete \<or> status b = Complete"
  shows "evolves lawfulChange s
           (snd (andThen (triggerAudioGeneration bid) (\<lambda>_. markAudioRequested bid) s))"
proof -
  obtain r s1 where t: "triggerAudioGeneration bid s = (r, s1)"
    by (cases "triggerAudioGeneration bid s")
  have "pres (evolves lawfulChange) (triggerAudioGeneration bid)"
    by (rule evolves_triggerAudioGeneration)
  then have "evolves lawfulChange s (snd (triggerAudioGeneration bid s))" by (rule presD)
  with t have e: "evolves lawfulChange s s1" by simp
  have "batches s1 = batches s" using triggerAudioGeneration_batches [of bid s] t by simp
  with assms(1) have "tracker bid s1 = Some b" by (simp add: tracker_def)
  then have "evolves lawfulChange s1 (snd (markAudioRequested bid s1))"
    using assms(2) by (rule evolves_markAudioRequested_at)
  with e have "evolves lawfulChange s (snd (markAudioRequested bid s1))"
    by (rule evolves_trans)
  with e t show ?thesis by (cases r) (simp_all add: andThen_def)
qed

lemma evolves_markAudioComplete: "pres (evolves lawfulChange) (markAudioComplete bid)"
  unfolding markAudioComplete_def
  by (intro evolves_andThen evolves_ret evolves_batchFindOneAndUpdate)
     (auto simp: trackerStep_def settled_def lawfulChange_def)

lemma evolves_checkBatchAudioCompletion:
  "pres (evolves lawfulChange) (checkBatchAudioCompletion bid)"
  unfolding checkBatchAudioCompletion_def
  by (intro evolves_tryCatch evolves_andThen evolves_batchFindOne pres_case_option
        evolves_ret evolves_summaryCountDocuments pres_if evolves_logOnly
        evolves_batchFindOneAndUpdate)
     (auto simp: trackerStep_def settled_def lawfulChange_def)

lemma evolves_handlePartialCompletion:
  "pres (evolves lawfulChange) (handlePartialCompletion bid tr)"
  unfolding handlePartialCompletion_def
  by (intro evolves_tryCatch evolves_logOnly evolves_cas_block [where Y = Partial_complete]
        evolves_dispatch_then_mark)
     (auto simp: settled_def lawfulChange_def listedTransition_def)

lemma evolves_handleFullCompletion:
  "pres (evolves lawfulChange) (handleFullCompletion bid tr)"
  unfolding handleFullCompletion_def
  apply (intro evolves_tryCatch evolves_logOnly pres_if)
   apply (intro evolves_andThen evolves_ret evolves_batchFindOneAndUpdate)
    apply (auto simp: trackerStep_def settled_def lawfulChange_def listedTransition_def) [2]
  apply (intro evolves_cas_block [where Y = Complete] evolves_dispatch_then_mark)
        apply (auto simp: settled_def lawfulChange_def listedTransition_def)
  done

subsection \<open>The services\<close>

lemma evolves_checkBatchCompletion: "pres (evolves lawfulChange) (checkBatchCompletion bid)"
  unfolding checkBatchCompletion_def
  by (intro evolves_tryCatch evolves_andThen pres_case_option pres_if evolves_ret
        evolves_logOnly evolves_summaryCountDocuments evolves_handlePartialCompletion
        evolves_handleFullCompletion evolves_checkBatchAudioCompletion
        evolves_batchFindOneAndUpdate)
     (auto simp: trackerStep_def)

lemma evolves_saveSummary:
  "pres (evolves lawfulChange) (saveSummary text uid stype title bid)"
  unfolding saveSummary_def
  by (intro evolves_tryCatch evolves_andThen pres_if evolves_ret evolves_throw
        evolves_summaryCreate evolves_checkBatchCompletion)

lemma evolves_handleSummaryAudioGenerationSuccess:
  "pres (evolves lawfulChange) (handleSummaryAudioGenerationSuccess url uid sid bid)"
  unfolding handleSummaryAudioGenerationSuccess_def
  by (intro evolves_tryCatch evolves_andThen pres_case_option pres_if evolves_ret
        evolves_throw evolves_summaryFindOneAndUpdate evolves_readClock evolves_mixCreate
        evolves_checkBatchAudioCompletion)

lemma evolves_handleAudioGenerationSuccess:
  "pres (evolves lawfulChange) (handleAudioGenerationSuccess url uid bid)"
  unfolding handleAudioGenerationSuccess_def
  by (intro evolves_tryCatch evolves_andThen evolves_ret evolves_throw evolves_readClock
        evolves_mixCreate evolves_batchFindOneAndUpdate)
     (auto simp: trackerStep_def settled_def lawfulChange_def)

lemma evolves_handleAudioGenerationFailure:
  "pres (evolves (\<lambda>old new. new = Audio_failed)) (handleAudioGenerationFailure bid msg uid)"
  unfolding handleAudioGenerationFailure_def
  by (intro evolves_tryCatch evolves_andThen evolves_ret evolves_throw
        evolves_batchFindOneAndUpdate)
     (auto simp: trackerStep_def settled_def)

lemma evolves_dispatch_or_complete:
  assumes "tracker bid s = Some b" and "status b = Complete"
  shows "evolves lawfulChange s
           (snd ((if c then andThen (triggerAudioGeneration bid) (\<lambda>_. markAudioRequested bid)
                  else markAudioComplete bid) s))"
  using assms
  by (cases c) (simp_all add: evolves_dispatch_then_mark presD [OF evolves_markAudioComplete])

lemma evolves_handleTimeoutBatch: "pres (evolves lawfulChange) (handleTimeoutBatch batch)"
  unfolding handleTimeoutBatch_def Let_def
  by (intro evolves_tryCatch evolves_logOnly pres_if evolves_ret
        evolves_cas_block [where Y = Complete] evolves_dispatch_or_complete
        evolves_andThen evolves_summaryCountDocuments evolves_batchFindOneAndUpdate)
     (auto simp: trackerStep_def settled_def lawfulChange_def listedTransition_def
        terminal_def)

lemma evolves_processTimeoutBatches: "pres (evolves lawfulChange) processTimeoutBatches"
  unfolding processTimeoutBatches_def
  by (intro evolves_tryCatch evolves_logOnly evolves_andThen evolves_readClock
        evolves_batchFind evolves_forEach evolves_handleTimeoutBatch)

lemma evolves_recoverFailedBatch:
  "pres (evolves lawfulChange) (recoverFailedBatch batch n)"
  unfolding recoverFailedBatch_def Let_def
  by (intro evolves_tryCatch evolves_logOnly pres_if evolves_ret
        evolves_cas_block [where Y = Complete] evolves_dispatch_or_complete
        evolves_andThen evolves_summaryCountDocuments)
     (auto simp: settled_def lawfulChange_def listedTransition_def)

lemma evolves_recoverIfOrphaned: "pres (evolves lawfulChange) (recoverIfOrphaned batch)"
  unfolding recoverIfOrphaned_def
  by (intro evolves_andThen evolves_summaryCountDocuments pres_if evolves_ret
        evolves_recoverFailedBatch)

lemma evolves_processOrphanedSummaries: "pres (evolves lawfulChange) processOrphanedSummaries"
  unfolding processOrphanedSummaries_def
  by (intro evolves_tryCatch evolves_logOnly evolves_andThen evolves_batchFind
        evolves_forEach evolves_recoverIfOrphaned)

lemma evolves_triggerPartialCompletion:
  "pres (evolves lawfulChange) (triggerPartialCompletion batch)"
  unfolding triggerPartialCompletion_def
  by (intro evolves_tryCatch evolves_logOnly pres_if evolves_ret
        evolves_cas_block [where Y = Partial_complete] evolves_dispatch_then_mark)
     (auto simp: settled_def lawfulChange_def listedTransition_def)

lemma evolves_checkIfHalfComplete: "pres (evolves lawfulChange) (checkIfHalfComplete batch)"
  unfolding checkIfHalfComplete_def
  by (intro pres_if evolves_ret evolves_triggerPartialCompletion)

lemma evolves_checkPartialCompletionBatches:
  "pres (evolves lawfulChange) checkPartialCompletionBatches"
  unfolding checkPartialCompletionBatches_def
  by (intro evolves_tryCatch evolves_logOnly evolves_andThen evolves_batchFind
        evolves_forEach evolves_checkIfHalfComplete)

lemma evolves_getBatchStatistics: "pres (evolves A) getBatchStatistics"
  unfolding getBatchStatistics_def
  by (intro evolves_tryCatch evolves_ret evolves_query) simp

lemma evolves_runPeriodicMaintenance: "pres (evolves lawfulChange) runPeriodicMaintenance"
  unfolding runPeriodicMaintenance_def
  by (intro evolves_tryCatch evolves_logOnly evolves_andThen evolves_ret
        evolves_processTimeoutBatches evolves_processOrphanedSummaries
        evolves_checkPartialCompletionBatches evolves_getBatchStatistics)

section \<open>The changes of status an event causes\<close>

lemma snd_handleSummaryWebhook:
  "snd (handleSummaryWebhook text uid stype title bid s) = snd (saveSummary text uid stype title bid s)"
  by (simp add: handleSummaryWebhook_def split: prod.splits sum.splits)

lemma snd_handleAudioGenerationFailureWebhook:
  "snd (handleAudioGenerationFailureWebhook bid msg uid s) =
     (if \<not> truthy bid \<or> \<not> truthy msg \<or> \<not> truthy uid then s
      else snd (handleAudioGenerationFailure (the bid) (the msg) (the uid) s))"
  by (simp add: handleAudioGenerationFailureWebhook_def split: prod.splits sum.splits)

lemma snd_handleSaveAudioUrl:
  "snd (handleSaveAudioUrl url uid bid sid s) =
     (if \<not> truthy url \<or> \<not> truthy uid then s
      else case sid of
             Some i \<Rightarrow> snd (handleSummaryAudioGenerationSuccess (the url) (the uid) i bid s)
           | None \<Rightarrow> if truthy bid
                     then snd (handleAudioGenerationSuccess (the url) (the uid) (the bid) s)
                     else s)"
  by (simp add: handleSaveAudioUrl_def split: prod.splits sum.splits option.splits)

lemma evolves_exec: "evolves (engineChange ev) s (exec ev s)"
proof (cases ev)
  case (SummaryArrived body uid stype title bid)
  have "evolves lawfulChange s (exec ev s)"
    using presD [OF evolves_saveSummary] SummaryArrived
    by (simp add: snd_handleSummaryWebhook)
  then show ?thesis
    by (rule evolves_mono [rotated]) (auto simp: engineChange_def lawfulChange_def)
next
  case (AudioSaved url uid bid sid)
  have "evolves lawfulChange s (exec ev s)"
    using presD [OF evolves_handleSummaryAudioGenerationSuccess]
      presD [OF evolves_handleAudioGenerationSuccess] AudioSaved
    by (simp add: snd_handleSaveAudioUrl evolves_frame split: option.splits)
  then show ?thesis
    by (rule evolves_mono [rotated]) (auto simp: engineChange_def lawfulChange_def)
next
  case (AudioFailureReported bid msg uid)
  have "evolves (\<lambda>old new. new = Audio_failed) s (exec ev s)"
    using presD [OF evolves_handleAudioGenerationFailure] AudioFailureReported
    by (simp add: snd_handleAudioGenerationFailureWebhook evolves_frame)
  then show ?thesis
    by (rule evolves_mono [rotated])
       (auto simp: engineChange_def isFailureReport_def AudioFailureReported)
next
  case Maintenance
  have "evolves lawfulChange s (exec ev s)"
    using presD [OF evolves_runPeriodicMaintenance] Maintenance by simp
  then show ?thesis
    by (rule evolves_mono [rotated]) (auto simp: engineChange_def lawfulChange_def)
next
  case (Elapse ms)
  then show ?thesis by (simp add: evolves_frame)
qed

text \<open>
  When the events are handled one after the other, in a store whose batch ids are
  distinct, every change of status that handling an event causes is a transition of the
  table, or a change to \<open>audio_complete\<close>, or, when the event is a failure report, a
  change to \<open>audio_failed\<close>; the batch ids stay distinct.
\<close>

lemma changes_of_one_event:
  assumes "distinctIds s"
  shows "distinctIds (exec ev s) \<and>
         (\<exists>ext. transitions (exec ev s) = transitions s @ ext \<and>
            (\<forall>t \<in> set ext.
               listedTransition (fst (snd t)) (snd (snd t)) \<or>
               snd (snd t) = Audio_complete \<or>
               (snd (snd t) = Audio_failed \<and> isFailureReport ev)))"
  using evolves_exec [of ev s] assms evolves_distinct [OF evolves_exec [of ev s]]
  by (simp add: evolves_def engineChange_def)

section \<open>The services when the store works\<close>

lemma storeCall_sound:
  "faults s = [] \<Longrightarrow> storeCall f s = (Inr (fst (f s)), snd (f s))"
  by (simp add: storeCall_eq storeFails_nofault consumed_nofault)

lemma tracker_batchId: "tracker bid s = Some b \<Longrightarrow> batchId b = bid"
  by (auto simp: tracker_def find_Some_iff)

lemma update_sound:
  assumes "faults s = []"
  shows "batchFindOneAndUpdate (\<lambda>x. batchId x = bid) u s =
           (Inr (map_option (u (now s)) (tracker bid s)), withUpdate bid u s)"
  using assms
  by (simp add: batchFindOneAndUpdate_def storeCall_sound withUpdate_def tracker_def
      split: option.splits)

lemma cas_sound:
  assumes "sound s"
  shows "batchFindOneAndUpdate (\<lambda>x. batchId x = bid \<and> Q x) u s =
           (case tracker bid s of
              None \<Rightarrow> (Inr None, s)
            | Some b \<Rightarrow> if Q b then (Inr (Some (u (now s) b)), withUpdate bid u s)
                        else (Inr None, s))"
proof -
  from assms have f: "faults s = []" and d: "distinct (map batchId (batches s))"
    by (simp_all add: sound_def distinctIds_def)
  show ?thesis
    by (simp add: batchFindOneAndUpdate_def storeCall_sound [OF f] withUpdate_def tracker_def
        find_id_and [OF d] updFirst_id_and [OF d] split: option.splits)
qed

lemma withUpdate_fields [simp]:
  "summaries (withUpdate bid u s) = summaries s" "sent (withUpdate bid u s) = sent s"
  "faults (withUpdate bid u s) = faults s" "now (withUpdate bid u s) = now s"
  "mixes (withUpdate bid u s) = mixes s" "nextId (withUpdate bid u s) = nextId s"
  by (simp_all add: withUpdate_def split: option.splits)

lemma tracker_withUpdate:
  "(\<And>t b. batchId (u t b) = batchId b) \<Longrightarrow>
   tracker k (withUpdate bid u s) =
     (if k = bid then map_option (u (now s)) (tracker bid s) else tracker k s)"
  by (simp add: withUpdate_def tracker_def find_id_updFirst split: option.splits)

lemma ids_withUpdate:
  "(\<And>t b. batchId (u t b) = batchId b) \<Longrightarrow>
   map batchId (batches (withUpdate bid u s)) = map batchId (batches s)"
  by (simp add: withUpdate_def map_batchId_updFirst split: option.splits)

lemma sound_withUpdate:
  "(\<And>t b. batchId (u t b) = batchId b) \<Longrightarrow> sound (withUpdate bid u s) = sound s"
  by (simp add: sound_def distinctIds_def ids_withUpdate)

lemma dispatchedFor_withUpdate [simp]:
  "dispatchedFor k (withUpdate bid u s) = dispatchedFor k s"
  by (simp add: dispatchedFor_def)

lemma changesOf_withUpdate:
  "changesOf k (withUpdate bid u s) =
     changesOf k s @
       (case tracker bid s of
          None \<Rightarrow> []
        | Some b \<Rightarrow> if k = bid \<and> status (u (now s) b) \<noteq> status b
                    then [(status b, status (u (now s) b))] else [])"
  by (auto simp: changesOf_def withUpdate_def split: option.splits dest: tracker_batchId)

lemma unitsOf_withUpdate [simp]:
  "unitsOf k (withUpdate bid u s) = unitsOf k s"
  "unitsLackingAudio k (withUpdate bid u s) = unitsLackingAudio k s"
  by (simp_all add: unitsOf_def unitsLackingAudio_def)

lemma sent_sendAll:
  "map reqSummaryId (filter (\<lambda>r. reqBatchId r = k) (sent (sendAll xs bid s))) =
   map reqSummaryId (filter (\<lambda>r. reqBatchId r = k) (sent s)) @
     (if k = bid then map summaryId xs else [])"
  by (induction xs bid s rule: sendAll.induct)
     (simp_all add: sendIndividualSummaryForAudio_def delay_def)

lemma dispatchedFor_sendAll:
  "dispatchedFor k (sendAll xs bid s) =
     dispatchedFor k s @ (if k = bid then map summaryId xs else [])"
  by (simp add: dispatchedFor_def sent_sendAll)

lemma observe_sendAll [simp]:
  "tracker k (sendAll xs bid s) = tracker k s"
  "changesOf k (sendAll xs bid s) = changesOf k s"
  "unitsOf k (sendAll xs bid s) = unitsOf k s"
  "unitsLackingAudio k (sendAll xs bid s) = unitsLackingAudio k s"
  "sound (sendAll xs bid s) = sound s"
  by (simp_all add: tracker_def changesOf_def unitsOf_def unitsLackingAudio_def sound_def
      distinctIds_def)

lemma summaryCountDocuments_sound:
  "faults s = [] \<Longrightarrow>
   summaryCountDocuments P s = (Inr (length (filter P (summaries s))), s)"
  by (simp add: summaryCountDocuments_def storeCall_sound)

lemma triggerAudioGeneration_sound:
  assumes "faults s = []"
  shows "triggerAudioGeneration bid s =
           (Inr (),
            if (case tracker bid s of None \<Rightarrow> False | Some b \<Rightarrow> audioProcessed (status b))
            then s else sendAll (unitsLackingAudio bid s) bid s)"
  using assms
  by (simp add: triggerAudioGeneration_def tryCatch_throw andThen_def batchFindOne_def
      summaryFind_def summaryCountDocuments_def storeCall_sound ret_def tracker_def
      unitsLackingAudio_def)

lemma length_filter_split:
  "length (filter P xs) =
     length (filter (\<lambda>x. P x \<and> Q x) xs) + length (filter (\<lambda>x. P x \<and> \<not> Q x) xs)"
  by (induction xs) auto

lemma lacking_iff:
  "0 < int (length (filter (\<lambda>x. summaryBatchId x = Some bid) xs))
        - int (length (filter (\<lambda>x. summaryBatchId x = Some bid \<and> isAudioGenerated x) xs))
   \<longleftrightarrow> filter (\<lambda>x. summaryBatchId x = Some bid \<and> \<not> isAudioGenerated x) xs \<noteq> []"
  using length_filter_split [of "\<lambda>x. summaryBatchId x = Some bid" xs isAudioGenerated]
  by auto

section \<open>The timeout pass\<close>

lemmas sound_exec =
  tryCatch_def andThen_def ret_def logOnly_def Let_def summaryCountDocuments_sound
  update_sound cas_sound triggerAudioGeneration_sound markAudioRequested_def
  markAudioComplete_def tracker_withUpdate sound_withUpdate changesOf_withUpdate
  dispatchedFor_sendAll audioProcessed_def

lemma handleTimeoutBatch_sound:
  assumes s: "sound s" and tr: "tracker (batchId b) s = Some b"
    and st: "status b = Pending \<or> status b = Partial_complete"
  shows "\<exists>s'. handleTimeoutBatch b s = (Inr (), s') \<and> sound s' \<and> sameUnits s s' \<and>
              (\<forall>k. k \<noteq> batchId b \<longrightarrow> untouched k s s') \<and> timeoutOutcome b s s'"
proof -
  from s have f: "faults s = []" by (simp add: sound_def)
  have l: "(0 < int (length (unitsOf (batchId b) s))
        - int (length (filter (\<lambda>x. summaryBatchId x = Some (batchId b) \<and> isAudioGenerated x)
               (summaries s))))
     = (unitsLackingAudio (batchId b) s \<noteq> [])"
    unfolding unitsOf_def unitsLackingAudio_def by (rule lacking_iff)
  show ?thesis
  proof (cases "unitsOf (batchId b) s = []")
    case True
    then have z: "length (filter (\<lambda>x. summaryBatchId x = Some (batchId b)) (summaries s)) = 0"
      by (simp add: unitsOf_def)
    show ?thesis
      using s f tr st True z
      by (auto simp add: handleTimeoutBatch_def sound_exec sameUnits_def untouched_def
          timeoutOutcome_def)
  next
    case False
    then have z: "0 < length (filter (\<lambda>x. summaryBatchId x = Some (batchId b)) (summaries s))"
      by (simp add: unitsOf_def)
    have u: "unitsOf (batchId b) s \<noteq> []" by (rule False)
    show ?thesis
    proof (cases "status b = Pending")
      case True
      show ?thesis
      proof (cases "unitsLackingAudio (batchId b) s = []")
        case True
        show ?thesis
          using s f tr \<open>status b = Pending\<close> u z l True
          by (auto simp add: handleTimeoutBatch_def sound_exec sameUnits_def untouched_def
              timeoutOutcome_def unitsOf_def)
      next
        case False
        show ?thesis
          using s f tr \<open>status b = Pending\<close> u z l False
          by (auto simp add: handleTimeoutBatch_def sound_exec sameUnits_def untouched_def
              timeoutOutcome_def unitsOf_def)
      qed
    next
      case False
      with st have "status b = Partial_complete" by simp
      then show ?thesis
        using s f tr u z l
        by (auto simp add: handleTimeoutBatch_def sound_exec sameUnits_def untouched_def
            timeoutOutcome_def unitsOf_def)
    qed
  qed
qed


subsection \<open>A pass over a list of batches\<close>

lemma untouched_refl: "untouched k s s"
  by (simp add: untouched_def)

lemma untouched_trans: "untouched k s s1 \<Longrightarrow> untouched k s1 s2 \<Longrightarrow> untouched k s s2"
  by (simp add: untouched_def)

lemma sameUnits_refl: "sameUnits s s"
  by (simp add: sameUnits_def)

lemma sameUnits_trans: "sameUnits s s1 \<Longrightarrow> sameUnits s1 s2 \<Longrightarrow> sameUnits s s2"
  by (simp add: sameUnits_def)

lemma forEach_pass:
  assumes step: "\<And>x s. sound s \<Longrightarrow> tracker (batchId x) s = Some x \<Longrightarrow> C x \<Longrightarrow>
            \<exists>s'. f x s = (Inr (), s') \<and> sound s' \<and> sameUnits s s' \<and>
                 (\<forall>k. k \<noteq> batchId x \<longrightarrow> untouched k s s') \<and> Post x s s'"
    and local: "\<And>x s s' t t'. Post x s s' \<Longrightarrow> sameUnits t s \<Longrightarrow> untouched (batchId x) t s
            \<Longrightarrow> sameUnits s' t' \<Longrightarrow> untouched (batchId x) s' t' \<Longrightarrow> Post x t t'"
  shows "sound s \<Longrightarrow> distinct (map batchId xs) \<Longrightarrow>
         \<forall>x \<in> set xs. tracker (batchId x) s = Some x \<and> C x \<Longrightarrow>
         \<exists>s'. forEach f xs s = (Inr (), s') \<and> sound s' \<and> sameUnits s s' \<and>
              (\<forall>k. k \<notin> batchId ` set xs \<longrightarrow> untouched k s s') \<and>
              (\<forall>x \<in> set xs. Post x s s')"
proof (induction xs arbitrary: s)
  case Nil
  then show ?case by (simp add: ret_def sameUnits_refl untouched_refl)
next
  case (Cons x xs)
  from Cons.prems have "tracker (batchId x) s = Some x" and "C x" by simp_all
  from step [OF Cons.prems(1) this] obtain s1 where
    r1: "f x s = (Inr (), s1)" and g1: "sound s1" and u1: "sameUnits s s1"
    and o1: "\<forall>k. k \<noteq> batchId x \<longrightarrow> untouched k s s1" and p1: "Post x s s1"
    by blast
  from Cons.prems(2) have dx: "batchId x \<notin> batchId ` set xs" and d: "distinct (map batchId xs)"
    by simp_all
  have "\<forall>y \<in> set xs. tracker (batchId y) s1 = Some y \<and> C y"
  proof
    fix y assume y: "y \<in> set xs"
    with dx have "batchId y \<noteq> batchId x" by (auto simp: image_iff)
    with o1 have "untouched (batchId y) s s1" by simp
    with Cons.prems(3) y show "tracker (batchId y) s1 = Some y \<and> C y"
      by (simp add: untouched_def)
  qed
  from Cons.IH [OF g1 d this] obtain s2 where
    r2: "forEach f xs s1 = (Inr (), s2)" and g2: "sound s2" and u2: "sameUnits s1 s2"
    and o2: "\<forall>k. k \<notin> batchId ` set xs \<longrightarrow> untouched k s1 s2"
    and p2: "\<forall>y \<in> set xs. Post y s1 s2"
    by blast
  have a: "forEach f (x # xs) s = (Inr (), s2)" using r1 r2 by (simp add: andThen_def)
  have b: "sameUnits s s2" using u1 u2 by (rule sameUnits_trans)
  have c: "\<forall>k. k \<notin> batchId ` set (x # xs) \<longrightarrow> untouched k s s2"
    using o1 o2 by (auto intro: untouched_trans)
  have px: "Post x s s2"
    using p1 sameUnits_refl untouched_refl u2
  proof (rule local)
    show "untouched (batchId x) s1 s2" using o2 dx by simp
  qed
  have py: "\<forall>y \<in> set xs. Post y s s2"
  proof
    fix y assume y: "y \<in> set xs"
    with dx have "batchId y \<noteq> batchId x" by (auto simp: image_iff)
    with o1 have "untouched (batchId y) s s1" by simp
    with p2 y u1 show "Post y s s2"
      by (blast intro: local sameUnits_refl untouched_refl)
  qed
  from a g2 b c px py show ?case by auto
qed

lemma timeoutOutcome_local:
  assumes "timeoutOutcome b s s'" and "sameUnits t s" and "untouched (batchId b) t s"
    and "sameUnits s' t'" and "untouched (batchId b) s' t'"
  shows "timeoutOutcome b t t'"
proof -
  have e1: "unitsOf (batchId b) s = unitsOf (batchId b) t"
    "unitsLackingAudio (batchId b) s = unitsLackingAudio (batchId b) t"
    using assms(2) by (simp_all add: sameUnits_def unitsOf_def unitsLackingAudio_def)
  have e2: "dispatchedFor (batchId b) s = dispatchedFor (batchId b) t"
    "changesOf (batchId b) s = changesOf (batchId b) t"
    using assms(3) by (simp_all add: untouched_def)
  have e3: "tracker (batchId b) s' = tracker (batchId b) t'"
    "dispatchedFor (batchId b) s' = dispatchedFor (batchId b) t'"
    "changesOf (batchId b) s' = changesOf (batchId b) t'"
    using assms(5) by (simp_all add: untouched_def)
  show ?thesis using assms(1) unfolding timeoutOutcome_def e1 e2 e3 .
qed

lemma batchFind_sound: "faults s = [] \<Longrightarrow> batchFind P s = (Inr (filter P (batches s)), s)"
  by (simp add: batchFind_def storeCall_sound)

lemma tracker_member:
  "distinctIds s \<Longrightarrow> b \<in> set (batches s) \<Longrightarrow> tracker (batchId b) s = Some b"
proof -
  have "distinct (map batchId xs) \<Longrightarrow> b \<in> set xs \<Longrightarrow>
        find (\<lambda>x. batchId x = batchId b) xs = Some b" for xs
    by (induction xs) (auto simp: image_iff)
  then show "distinctIds s \<Longrightarrow> b \<in> set (batches s) \<Longrightarrow> tracker (batchId b) s = Some b"
    by (simp add: distinctIds_def tracker_def)
qed

lemma processTimeoutBatches_sound:
  assumes "sound s"
  shows "\<exists>s'. processTimeoutBatches s = (Inr (), s') \<and> sound s' \<and> sameUnits s s' \<and>
           (\<forall>b \<in> set (batches s).
              timeoutAt b \<le> now s \<and> (status b = Pending \<or> status b = Partial_complete)
              \<longrightarrow> timeoutOutcome b s s') \<and>
           (\<forall>k. k \<notin> batchId ` {b \<in> set (batches s). timeoutAt b \<le> now s \<and>
                      (status b = Pending \<or> status b = Partial_complete)}
              \<longrightarrow> untouched k s s')"
proof -
  let ?P = "\<lambda>b. timeoutAt b \<le> now s \<and> (status b = Pending \<or> status b = Partial_complete)"
  from assms have f: "faults s = []" and d: "distinctIds s" by (simp_all add: sound_def)
  have dd: "distinct (map batchId (filter ?P (batches s)))"
    using d by (simp add: distinctIds_def distinct_map_filter)
  have tt: "\<forall>x \<in> set (filter ?P (batches s)).
      tracker (batchId x) s = Some x \<and> (status x = Pending \<or> status x = Partial_complete)"
    using d by (auto intro: tracker_member)
  have "\<exists>s'. forEach handleTimeoutBatch (filter ?P (batches s)) s = (Inr (), s') \<and>
          sound s' \<and> sameUnits s s' \<and>
          (\<forall>k. k \<notin> batchId ` set (filter ?P (batches s)) \<longrightarrow> untouched k s s') \<and>
          (\<forall>x \<in> set (filter ?P (batches s)). timeoutOutcome x s s')"
  proof (rule forEach_pass
      [where C = "\<lambda>x. status x = Pending \<or> status x = Partial_complete", OF _ _ assms dd tt])
    fix x s
    assume "sound s" "tracker (batchId x) s = Some x"
      "status x = Pending \<or> status x = Partial_complete"
    then show "\<exists>s'. handleTimeoutBatch x s = (Inr (), s') \<and> sound s' \<and> sameUnits s s' \<and>
              (\<forall>k. k \<noteq> batchId x \<longrightarrow> untouched k s s') \<and> timeoutOutcome x s s'"
      by (rule handleTimeoutBatch_sound)
  next
    fix x s s' t t'
    assume "timeoutOutcome x s s'" "sameUnits t s" "untouched (batchId x) t s"
      "sameUnits s' t'" "untouched (batchId x) s' t'"
    then show "timeoutOutcome x t t'" by (rule timeoutOutcome_local)
  qed
  then show ?thesis
    by (auto simp: processTimeoutBatches_def tryCatch_def andThen_def ret_def
        batchFind_sound [OF f])
qed


text \<open>
  C4, amended. With the store working and distinct batch ids, for every batch whose
  deadline has passed and whose status is \<open>pending\<close> or \<open>partial_complete\<close>, the timeout
  pass leaves the tracker with the number of persisted units of the batch as its count;
  with no unit the batch is \<open>failed\<close>; with units, a \<open>pending\<close> batch has been made
  \<open>complete\<close> and then \<open>audio_requested\<close>, exactly its units without audio dispatched, or
  \<open>audio_complete\<close> with no dispatch when every unit has audio; a \<open>partial_complete\<close>
  batch has been made \<open>complete\<close> and nothing is dispatched for it.
\<close>

theorem timeout_pass_outcome:
  assumes "sound s" and "b \<in> set (batches s)" and "timeoutAt b \<le> now s"
    and "status b = Pending \<or> status b = Partial_complete"
  shows "timeoutOutcome b s (snd (processTimeoutBatches s))"
  using processTimeoutBatches_sound [OF assms(1)] assms(2-4) by auto

theorem timeout_pass_outcome_witness:
  "sound (mkSys [mkBatch ''b1'' 4 0 Pending 1000, mkBatch ''b2'' 2 0 Pending 1000]
            [mkSummary 0 ''u1'' ''b1'' True, mkSummary 1 ''u2'' ''b1'' False] 2000 []) \<and>
   timeoutOutcome (mkBatch ''b1'' 4 0 Pending 1000)
     (mkSys [mkBatch ''b1'' 4 0 Pending 1000, mkBatch ''b2'' 2 0 Pending 1000]
        [mkSummary 0 ''u1'' ''b1'' True, mkSummary 1 ''u2'' ''b1'' False] 2000 [])
     (snd (processTimeoutBatches
        (mkSys [mkBatch ''b1'' 4 0 Pending 1000, mkBatch ''b2'' 2 0 Pending 1000]
           [mkSummary 0 ''u1'' ''b1'' True, mkSummary 1 ''u2'' ''b1'' False] 2000 []))) \<and>
   map status (batches (snd (processTimeoutBatches
        (mkSys [mkBatch ''b1'' 4 0 Pending 1000, mkBatch ''b2'' 2 0 Pending 1000]
           [mkSummary 0 ''u1'' ''b1'' True, mkSummary 1 ''u2'' ''b1'' False] 2000 []))))
     = [Audio_requested, Failed] \<and>
   map receivedCount (batches (snd (processTimeoutBatches
        (mkSys [mkBatch ''b1'' 4 0 Pending 1000, mkBatch ''b2'' 2 0 Pending 1000]
           [mkSummary 0 ''u1'' ''b1'' True, mkSummary 1 ''u2'' ''b1'' False] 2000 []))))
     = [2, 0] \<and>
   dispatchedFor ''b1'' (snd (processTimeoutBatches
        (mkSys [mkBatch ''b1'' 4 0 Pending 1000, mkBatch ''b2'' 2 0 Pending 1000]
           [mkSummary 0 ''u1'' ''b1'' True, mkSummary 1 ''u2'' ''b1'' False] 2000 [])))
     = [1]"
proof -
  let ?s = "mkSys [mkBatch ''b1'' 4 0 Pending 1000, mkBatch ''b2'' 2 0 Pending 1000]
            [mkSummary 0 ''u1'' ''b1'' True, mkSummary 1 ''u2'' ''b1'' False] 2000 []"
  have a: "sound ?s" by (simp add: sound_def distinctIds_def mkSys_def mkBatch_def)
  have "timeoutOutcome (mkBatch ''b1'' 4 0 Pending 1000) ?s (snd (processTimeoutBatches ?s))"
    by (rule timeout_pass_outcome [OF a]) (simp_all add: mkSys_def mkBatch_def)
  moreover have "map status (batches (snd (processTimeoutBatches ?s))) = [Audio_requested, Failed]"
    "map receivedCount (batches (snd (processTimeoutBatches ?s))) = [2, 0]"
    "dispatchedFor ''b1'' (snd (processTimeoutBatches ?s)) = [1]"
    by (simp_all add: engine_defs processTimeoutBatches_def handleTimeoutBatch_def)
  ultimately show ?thesis using a by simp
qed

text \<open>
  C4, as stated: a timed-out batch with units has its units without audio dispatched.
  A \<open>partial_complete\<close> batch with three units, one of them without audio: the pass
  makes it \<open>complete\<close> and sends nothing.
\<close>

theorem timeout_pass_no_dispatch_counterexample:
  "\<not> statedTimeoutOutcome (mkBatch ''b1'' 4 2 Partial_complete 1000)
       (mkSys [mkBatch ''b1'' 4 2 Partial_complete 1000]
          [mkSummary 0 ''u1'' ''b1'' True, mkSummary 1 ''u2'' ''b1'' True,
           mkSummary 2 ''u3'' ''b1'' False] 2000 [])
       (snd (processTimeoutBatches
          (mkSys [mkBatch ''b1'' 4 2 Partial_complete 1000]
             [mkSummary 0 ''u1'' ''b1'' True, mkSummary 1 ''u2'' ''b1'' True,
              mkSummary 2 ''u3'' ''b1'' False] 2000 []))) \<and>
   map status (batches (snd (processTimeoutBatches
          (mkSys [mkBatch ''b1'' 4 2 Partial_complete 1000]
             [mkSummary 0 ''u1'' ''b1'' True, mkSummary 1 ''u2'' ''b1'' True,
              mkSummary 2 ''u3'' ''b1'' False] 2000 [])))) = [Complete] \<and>
   sent (snd (processTimeoutBatches
          (mkSys [mkBatch ''b1'' 4 2 Partial_complete 1000]
             [mkSummary 0 ''u1'' ''b1'' True, mkSummary 1 ''u2'' ''b1'' True,
              mkSummary 2 ''u3'' ''b1'' False] 2000 []))) = [] \<and>
   map summaryId (unitsLackingAudio ''b1''
          (mkSys [mkBatch ''b1'' 4 2 Partial_complete 1000]
             [mkSummary 0 ''u1'' ''b1'' True, mkSummary 1 ''u2'' ''b1'' True,
              mkSummary 2 ''u3'' ''b1'' False] 2000 [])) = [2]"
  by (simp add: engine_defs processTimeoutBatches_def handleTimeoutBatch_def
      statedTimeoutOutcome_def changesOf_def)

section \<open>The recovery pass\<close>

lemma recoverFailedBatch_sound:
  assumes s: "sound s" and tr: "tracker (batchId b) s = Some b" and st: "status b = Failed"
    and n: "n = length (unitsOf (batchId b) s)"
  shows "\<exists>s'. recoverFailedBatch b n s = (Inr (), s') \<and> sound s' \<and> sameUnits s s' \<and>
              (\<forall>k. k \<noteq> batchId b \<longrightarrow> untouched k s s') \<and> recoveryOutcome b s s'"
proof -
  from s have f: "faults s = []" by (simp add: sound_def)
  have l: "(0 < int (length (unitsOf (batchId b) s))
        - int (length (filter (\<lambda>x. summaryBatchId x = Some (batchId b) \<and> isAudioGenerated x)
               (summaries s))))
     = (unitsLackingAudio (batchId b) s \<noteq> [])"
    unfolding unitsOf_def unitsLackingAudio_def by (rule lacking_iff)
  show ?thesis
  proof (cases "unitsLackingAudio (batchId b) s = []")
    case True
    show ?thesis
      using s f tr st n l True
      by (auto simp add: recoverFailedBatch_def sound_exec sameUnits_def untouched_def
          recoveryOutcome_def)
  next
    case False
    show ?thesis
      using s f tr st n l False
      by (auto simp add: recoverFailedBatch_def sound_exec sameUnits_def untouched_def
          recoveryOutcome_def)
  qed
qed

lemma recoverIfOrphaned_sound:
  assumes s: "sound s" and tr: "tracker (batchId b) s = Some b" and st: "status b = Failed"
  shows "\<exists>s'. recoverIfOrphaned b s = (Inr (), s') \<and> sound s' \<and> sameUnits s s' \<and>
              (\<forall>k. k \<noteq> batchId b \<longrightarrow> untouched k s s') \<and>
              (if unitsOf (batchId b) s = [] then untouched (batchId b) s s'
               else recoveryOutcome b s s')"
proof -
  from s have f: "faults s = []" by (simp add: sound_def)
  show ?thesis
  proof (cases "unitsOf (batchId b) s = []")
    case True
    with s f show ?thesis
      by (simp add: recoverIfOrphaned_def andThen_def ret_def summaryCountDocuments_sound
          unitsOf_def sameUnits_refl untouched_refl)
  next
    case False
    from recoverFailedBatch_sound [OF s tr st refl] False f show ?thesis
      by (simp add: recoverIfOrphaned_def andThen_def ret_def summaryCountDocuments_sound
          unitsOf_def)
  qed
qed

lemma recoveryOutcome_local:
  assumes "if unitsOf (batchId b) s = [] then untouched (batchId b) s s'
           else recoveryOutcome b s s'"
    and "sameUnits t s" and "untouched (batchId b) t s"
    and "sameUnits s' t'" and "untouched (batchId b) s' t'"
  shows "if unitsOf (batchId b) t = [] then untouched (batchId b) t t'
         else recoveryOutcome b t t'"
proof -
  have e1: "unitsOf (batchId b) s = unitsOf (batchId b) t"
    "unitsLackingAudio (batchId b) s = unitsLackingAudio (batchId b) t"
    using assms(2) by (simp_all add: sameUnits_def unitsOf_def unitsLackingAudio_def)
  have e2: "dispatchedFor (batchId b) s = dispatchedFor (batchId b) t"
    "changesOf (batchId b) s = changesOf (batchId b) t"
    using assms(3) by (simp_all add: untouched_def)
  have e3: "tracker (batchId b) s' = tracker (batchId b) t'"
    "dispatchedFor (batchId b) s' = dispatchedFor (batchId b) t'"
    "changesOf (batchId b) s' = changesOf (batchId b) t'"
    using assms(5) by (simp_all add: untouched_def)
  show ?thesis
  proof (cases "unitsOf (batchId b) t = []")
    case True
    with assms(1) e1 have "untouched (batchId b) s s'" by simp
    with assms(3,5) have "untouched (batchId b) t t'" by (blast intro: untouched_trans)
    with True show ?thesis by simp
  next
    case False
    with assms(1) e1 have "recoveryOutcome b s s'" by simp
    then have "recoveryOutcome b t t'" unfolding recoveryOutcome_def e1 e2 e3 .
    with False show ?thesis by simp
  qed
qed

lemma processOrphanedSummaries_sound:
  assumes "sound s"
  shows "\<exists>s'. processOrphanedSummaries s = (Inr (), s') \<and> sound s' \<and> sameUnits s s' \<and>
           (\<forall>b \<in> set (batches s).
              status b = Failed \<and> receivedCount b = 0 \<and> unitsOf (batchId b) s \<noteq> []
              \<longrightarrow> recoveryOutcome b s s') \<and>
           (\<forall>k. k \<notin> batchId ` {b \<in> set (batches s). status b = Failed \<and>
                      receivedCount b = 0 \<and> unitsOf (batchId b) s \<noteq> []}
              \<longrightarrow> untouched k s s')"
proof -
  let ?P = "\<lambda>b. status b = Failed \<and> receivedCount b = 0"
  from assms have f: "faults s = []" and d: "distinctIds s" by (simp_all add: sound_def)
  have dd: "distinct (map batchId (filter ?P (batches s)))"
    using d by (simp add: distinctIds_def distinct_map_filter)
  have tt: "\<forall>x \<in> set (filter ?P (batches s)).
      tracker (batchId x) s = Some x \<and> status x = Failed"
    using d by (auto intro: tracker_member)
  have "\<exists>s'. forEach recoverIfOrphaned (filter ?P (batches s)) s = (Inr (), s') \<and>
          sound s' \<and> sameUnits s s' \<and>
          (\<forall>k. k \<notin> batchId ` set (filter ?P (batches s)) \<longrightarrow> untouched k s s') \<and>
          (\<forall>x \<in> set (filter ?P (batches s)).
             if unitsOf (batchId x) s = [] then untouched (batchId x) s s'
             else recoveryOutcome x s s')"
  proof (rule forEach_pass [where C = "\<lambda>x. status x = Failed", OF _ _ assms dd tt])
    fix x s
    assume "sound s" "tracker (batchId x) s = Some x" "status x = Failed"
    then show "\<exists>s'. recoverIfOrphaned x s = (Inr (), s') \<and> sound s' \<and> sameUnits s s' \<and>
              (\<forall>k. k \<noteq> batchId x \<longrightarrow> untouched k s s') \<and>
              (if unitsOf (batchId x) s = [] then untouched (batchId x) s s'
               else recoveryOutcome x s s')"
      by (rule recoverIfOrphaned_sound)
  next
    fix x s s' t t'
    assume "if unitsOf (batchId x) s = [] then untouched (batchId x) s s'
            else recoveryOutcome x s s'"
      "sameUnits t s" "untouched (batchId x) t s" "sameUnits s' t'" "untouched (batchId x) s' t'"
    then show "if unitsOf (batchId x) t = [] then untouched (batchId x) t t'
               else recoveryOutcome x t t'"
      by (rule recoveryOutcome_local)
  qed
  then obtain s' where
    r: "forEach recoverIfOrphaned (filter ?P (batches s)) s = (Inr (), s')"
    and g: "sound s'" and u: "sameUnits s s'"
    and o: "\<forall>k. k \<notin> batchId ` set (filter ?P (batches s)) \<longrightarrow> untouched k s s'"
    and p: "\<forall>x \<in> set (filter ?P (batches s)).
             if unitsOf (batchId x) s = [] then untouched (batchId x) s s'
             else recoveryOutcome x s s'"
    by blast
  have "untouched k s s'"
    if k: "k \<notin> batchId ` {b \<in> set (batches s). status b = Failed \<and>
                      receivedCount b = 0 \<and> unitsOf (batchId b) s \<noteq> []}" for k
  proof (cases "k \<in> batchId ` set (filter ?P (batches s))")
    case False
    with o show ?thesis by blast
  next
    case True
    then obtain x where x: "x \<in> set (filter ?P (batches s))" and kx: "k = batchId x" by auto
    with k have "unitsOf (batchId x) s = []" by auto
    with p x kx show ?thesis by auto
  qed
  moreover have "processOrphanedSummaries s = (Inr (), s')"
    using r by (simp add: processOrphanedSummaries_def tryCatch_def andThen_def ret_def
        batchFind_sound [OF f])
  ultimately show ?thesis using g u p by auto
qed

subsection \<open>Settled batches\<close>

lemma evolves_run: "evolves (\<lambda>old new. True) s (run evs s)"
proof (induction evs arbitrary: s)
  case Nil
  show ?case by (simp add: evolves_frame)
next
  case (Cons ev evs)
  have "evolves (\<lambda>old new. True) s (exec ev s)"
    by (rule evolves_mono [OF _ evolves_exec]) simp
  with Cons show ?case by (auto intro: evolves_trans)
qed

lemma trackerSteps_find:
  "list_all2 trackerStep xs ys \<Longrightarrow> find (\<lambda>b. batchId b = bid) xs = Some b \<Longrightarrow>
   \<exists>b'. find (\<lambda>b. batchId b = bid) ys = Some b' \<and> trackerStep b b'"
  by (induction rule: list_all2_induct) (auto simp: trackerStep_def)

lemma settled_run:
  assumes "distinctIds s" and "tracker bid s = Some b" and "settled (status b)"
  shows "\<exists>b'. tracker bid (run evs s) = Some b' \<and> settled (status b')"
proof -
  from evolves_run [of s evs] assms(1)
  have "list_all2 trackerStep (batches s) (batches (run evs s))" by (simp add: evolves_def)
  from trackerSteps_find [OF this] assms(2) obtain b' where
    "tracker bid (run evs s) = Some b'" "trackerStep b b'" by (auto simp: tracker_def)
  with assms(3) show ?thesis by (auto simp: trackerStep_def)
qed


text \<open>
  C5. With the store working and distinct batch ids, for every batch that is \<open>failed\<close>
  with a count of zero and for which units now exist, the recovery pass makes the batch
  \<open>complete\<close>, with the number of its units as its count, and then either dispatches
  exactly its units without audio and marks it \<open>audio_requested\<close>, or, when every unit
  has audio, dispatches nothing and marks it \<open>audio_complete\<close>. After that, whatever
  events follow and whichever store operations fail during them, the batch is never
  \<open>failed\<close> again.
\<close>

theorem recovery_pass_outcome:
  assumes "sound s" and "b \<in> set (batches s)" and "status b = Failed"
    and "receivedCount b = 0" and "unitsOf (batchId b) s \<noteq> []"
  shows "recoveryOutcome b s (snd (processOrphanedSummaries s)) \<and>
         (\<forall>fs evs. \<exists>b'.
            tracker (batchId b) (run evs ((snd (processOrphanedSummaries s))\<lparr>faults := fs\<rparr>))
              = Some b' \<and> status b' \<noteq> Failed)"
proof -
  from processOrphanedSummaries_sound [OF assms(1)] assms(2-5) obtain s' where
    p: "processOrphanedSummaries s = (Inr (), s')" and g: "sound s'"
    and r: "recoveryOutcome b s s'" by blast
  from r obtain b1 where t: "tracker (batchId b) s' = Some b1"
    and "status b1 = Audio_requested \<or> status b1 = Audio_complete"
    by (auto simp: recoveryOutcome_def split: if_splits)
  then have st: "settled (status b1)" by (auto simp: settled_def)
  have "\<exists>b'. tracker (batchId b) (run evs (s'\<lparr>faults := fs\<rparr>)) = Some b' \<and> status b' \<noteq> Failed"
    for fs evs
  proof -
    have "distinctIds (s'\<lparr>faults := fs\<rparr>)" using g by (simp add: sound_def distinctIds_def)
    moreover have "tracker (batchId b) (s'\<lparr>faults := fs\<rparr>) = Some b1"
      using t by (simp add: tracker_def)
    ultimately obtain b' where "tracker (batchId b) (run evs (s'\<lparr>faults := fs\<rparr>)) = Some b'"
      "settled (status b')" using settled_run [OF _ _ st] by blast
    then show ?thesis by (auto simp: settled_def)
  qed
  with p r show ?thesis by simp
qed


theorem recovery_pass_outcome_witness:
  "sound (mkSys [mkBatch ''b1'' 2 0 Failed 1000] [mkSummary 0 ''u1'' ''b1'' False] 5000 []) \<and>
   unitsOf ''b1'' (mkSys [mkBatch ''b1'' 2 0 Failed 1000] [mkSummary 0 ''u1'' ''b1'' False] 5000 [])
     \<noteq> [] \<and>
   recoveryOutcome (mkBatch ''b1'' 2 0 Failed 1000)
     (mkSys [mkBatch ''b1'' 2 0 Failed 1000] [mkSummary 0 ''u1'' ''b1'' False] 5000 [])
     (snd (processOrphanedSummaries
        (mkSys [mkBatch ''b1'' 2 0 Failed 1000] [mkSummary 0 ''u1'' ''b1'' False] 5000 []))) \<and>
   map status (batches (snd (processOrphanedSummaries
        (mkSys [mkBatch ''b1'' 2 0 Failed 1000] [mkSummary 0 ''u1'' ''b1'' False] 5000 []))))
     = [Audio_requested] \<and>
   dispatchedFor ''b1'' (snd (processOrphanedSummaries
        (mkSys [mkBatch ''b1'' 2 0 Failed 1000] [mkSummary 0 ''u1'' ''b1'' False] 5000 [])))
     = [0] \<and>
   (\<exists>b'. tracker ''b1''
           (run [Maintenance, AudioFailureReported (Some ''b1'') (Some ''tts down'') (Some ''u1'')]
              ((snd (processOrphanedSummaries
                 (mkSys [mkBatch ''b1'' 2 0 Failed 1000] [mkSummary 0 ''u1'' ''b1'' False]
                    5000 [])))\<lparr>faults := [True, False]\<rparr>)) = Some b' \<and>
         status b' \<noteq> Failed)"
proof -
  let ?s = "mkSys [mkBatch ''b1'' 2 0 Failed 1000] [mkSummary 0 ''u1'' ''b1'' False] 5000 []"
  have a: "sound ?s" by (simp add: sound_def distinctIds_def mkSys_def mkBatch_def)
  have u: "unitsOf ''b1'' ?s \<noteq> []" by (simp add: unitsOf_def mkSys_def mkSummary_def)
  have i: "batchId (mkBatch ''b1'' 2 0 Failed 1000) = ''b1''" by (simp add: mkBatch_def)
  have "recoveryOutcome (mkBatch ''b1'' 2 0 Failed 1000) ?s (snd (processOrphanedSummaries ?s)) \<and>
         (\<forall>fs evs. \<exists>b'.
            tracker (batchId (mkBatch ''b1'' 2 0 Failed 1000))
              (run evs ((snd (processOrphanedSummaries ?s))\<lparr>faults := fs\<rparr>))
              = Some b' \<and> status b' \<noteq> Failed)"
  proof (rule recovery_pass_outcome [OF a])
    show "mkBatch ''b1'' 2 0 Failed 1000 \<in> set (batches ?s)" by (simp add: mkSys_def)
    show "status (mkBatch ''b1'' 2 0 Failed 1000) = Failed" by (simp add: mkBatch_def)
    show "receivedCount (mkBatch ''b1'' 2 0 Failed 1000) = 0" by (simp add: mkBatch_def)
    show "unitsOf (batchId (mkBatch ''b1'' 2 0 Failed 1000)) ?s \<noteq> []" using u i by simp
  qed
  then have "recoveryOutcome (mkBatch ''b1'' 2 0 Failed 1000) ?s (snd (processOrphanedSummaries ?s))"
    and "\<exists>b'. tracker ''b1''
           (run [Maintenance, AudioFailureReported (Some ''b1'') (Some ''tts down'') (Some ''u1'')]
              ((snd (processOrphanedSummaries ?s))\<lparr>faults := [True, False]\<rparr>)) = Some b' \<and>
         status b' \<noteq> Failed"
    unfolding i by blast+
  moreover have "map status (batches (snd (processOrphanedSummaries ?s))) = [Audio_requested]"
    "dispatchedFor ''b1'' (snd (processOrphanedSummaries ?s)) = [0]"
    by (simp_all add: engine_defs processOrphanedSummaries_def recoverIfOrphaned_def
        recoverFailedBatch_def)
  ultimately show ?thesis using a u by simp
qed

section \<open>The count of a batch and its units\<close>

lemma quiet_frame:
  "batches s' = batches s \<Longrightarrow> summaries s' = summaries s \<Longrightarrow> faults s' = faults s
   \<Longrightarrow> quiet s s'"
  by (simp add: quiet_def list_all2_same)

lemma quiet_reflp: "reflp quiet"
  by (rule reflpI) (simp add: quiet_frame)

lemma quiet_transp: "transp quiet"
proof (rule transpI)
  fix s s1 s2
  assume "quiet s s1" and "quiet s1 s2"
  then have a: "list_all2 (\<lambda>b b'. batchId b' = batchId b \<and> receivedCount b' = receivedCount b)
          (batches s) (batches s1)"
    and b: "list_all2 (\<lambda>b b'. batchId b' = batchId b \<and> receivedCount b' = receivedCount b)
          (batches s1) (batches s2)"
    and c: "summaries s2 = summaries s" "faults s = [] \<longrightarrow> faults s2 = []"
    by (simp_all add: quiet_def)
  have "list_all2 (\<lambda>b b'. batchId b' = batchId b \<and> receivedCount b' = receivedCount b)
          (batches s) (batches s2)"
    using a b by (rule list_all2_trans [rotated]) simp
  with c show "quiet s s2" by (simp add: quiet_def)
qed

lemma quiet_consumed: "quiet s (consumed s)"
  by (simp add: quiet_def list_all2_same)

lemmas quiet_ret = pres_ret [OF quiet_reflp]
lemmas quiet_throw = pres_throw [OF quiet_reflp]
lemmas quiet_logOnly = pres_logOnly [OF quiet_reflp]
lemmas quiet_andThen = pres_andThen [OF quiet_transp]
lemmas quiet_tryCatch = pres_tryCatch [OF quiet_transp]
lemmas quiet_forEach = pres_forEach [OF quiet_reflp quiet_transp]

lemma quiet_query: "(\<And>s. snd (f s) = s) \<Longrightarrow> pres quiet (storeCall f)"
  by (rule pres_storeCall [OF quiet_transp quiet_consumed]) (simp add: quiet_frame)

lemma quiet_batchFindOne: "pres quiet (batchFindOne P)"
  unfolding batchFindOne_def by (rule quiet_query) simp

lemma quiet_batchFind: "pres quiet (batchFind P)"
  unfolding batchFind_def by (rule quiet_query) simp

lemma quiet_summaryCountDocuments: "pres quiet (summaryCountDocuments P)"
  unfolding summaryCountDocuments_def by (rule quiet_query) simp

lemma quiet_summaryFind: "pres quiet (summaryFind P)"
  unfolding summaryFind_def by (rule quiet_query) simp

lemma quiet_batchFindOneAndUpdate:
  assumes "\<And>t b. batchId (u t b) = batchId b"
    and "\<And>t b. receivedCount (u t b) = receivedCount b"
  shows "pres quiet (batchFindOneAndUpdate P u)"
  unfolding batchFindOneAndUpdate_def
proof (rule pres_storeCall [OF quiet_transp quiet_consumed])
  fix s :: sys
  have "list_all2 (\<lambda>b b'. batchId b' = batchId b \<and> receivedCount b' = receivedCount b)
          (batches s) (updFirst P (u (now s)) (batches s))"
    by (rule list_all2_updFirst) (simp_all add: assms)
  then show "quiet s (snd (case find P (batches s) of
          None \<Rightarrow> (None, s)
        | Some b \<Rightarrow>
            (Some (u (now s) b),
             s\<lparr>batches := updFirst P (u (now s)) (batches s),
               transitions := transitions s @
                 (if status (u (now s) b) = status b then []
                  else [(batchId b, status b, status (u (now s) b))])\<rparr>)))"
    by (simp add: quiet_def list_all2_same split: option.split)
qed

lemma quiet_triggerAudioGeneration: "pres quiet (triggerAudioGeneration bid)"
  unfolding triggerAudioGeneration_def
  by (intro quiet_tryCatch quiet_andThen quiet_batchFindOne pres_if quiet_ret
      quiet_summaryFind quiet_summaryCountDocuments quiet_throw presI)
     (simp add: quiet_frame)

lemma quiet_markAudioRequested: "pres quiet (markAudioRequested bid)"
  unfolding markAudioRequested_def
  by (intro quiet_andThen quiet_ret quiet_batchFindOneAndUpdate) simp_all

lemma quiet_markAudioComplete: "pres quiet (markAudioComplete bid)"
  unfolding markAudioComplete_def
  by (intro quiet_andThen quiet_ret quiet_batchFindOneAndUpdate) simp_all

lemma quiet_checkBatchAudioCompletion: "pres quiet (checkBatchAudioCompletion bid)"
  unfolding checkBatchAudioCompletion_def
  by (intro quiet_tryCatch quiet_andThen quiet_batchFindOne pres_case_option quiet_ret
      quiet_summaryCountDocuments pres_if quiet_logOnly quiet_batchFindOneAndUpdate)
     simp_all

lemma quiet_handlePartialCompletion: "pres quiet (handlePartialCompletion bid tr)"
  unfolding handlePartialCompletion_def
  by (intro quiet_tryCatch quiet_andThen pres_case_option quiet_ret quiet_logOnly
      quiet_triggerAudioGeneration quiet_markAudioRequested quiet_batchFindOneAndUpdate)
     simp_all

lemma quiet_handleFullCompletion: "pres quiet (handleFullCompletion bid tr)"
  unfolding handleFullCompletion_def
  by (intro quiet_tryCatch quiet_andThen pres_case_option pres_if quiet_ret quiet_logOnly
      quiet_triggerAudioGeneration quiet_markAudioRequested quiet_batchFindOneAndUpdate)
     simp_all

lemma quiet_triggerPartialCompletion: "pres quiet (triggerPartialCompletion batch)"
  unfolding triggerPartialCompletion_def
  by (intro quiet_tryCatch quiet_andThen pres_case_option pres_if quiet_ret quiet_logOnly
      quiet_triggerAudioGeneration quiet_markAudioRequested quiet_batchFindOneAndUpdate)
     simp_all

lemma quiet_checkPartialCompletionBatches: "pres quiet checkPartialCompletionBatches"
  unfolding checkPartialCompletionBatches_def checkIfHalfComplete_def [abs_def]
  by (intro quiet_tryCatch quiet_andThen quiet_batchFind quiet_forEach pres_if quiet_ret
      quiet_logOnly quiet_triggerPartialCompletion)

lemma quiet_getBatchStatistics: "pres quiet getBatchStatistics"
  unfolding getBatchStatistics_def
  by (intro quiet_tryCatch quiet_ret quiet_query) simp

lemma quiet_find:
  "list_all2 (\<lambda>b b'. batchId b' = batchId b \<and> receivedCount b' = receivedCount b) xs ys \<Longrightarrow>
   find (\<lambda>b. batchId b = bid) xs = Some b \<Longrightarrow>
   \<exists>b'. find (\<lambda>b. batchId b = bid) ys = Some b' \<and> receivedCount b' = receivedCount b"
  by (induction rule: list_all2_induct) auto

lemma quiet_ids:
  "list_all2 (\<lambda>b b'. batchId b' = batchId b \<and> receivedCount b' = receivedCount b) xs ys \<Longrightarrow>
   map batchId ys = map batchId xs"
  by (induction rule: list_all2_induct) auto

lemma quiet_sound: "quiet s s' \<Longrightarrow> sound s \<Longrightarrow> sound s'"
  by (auto simp: quiet_def sound_def distinctIds_def dest: quiet_ids)

lemma quiet_counted: "quiet s s' \<Longrightarrow> counted bid s \<Longrightarrow> counted bid s'"
  by (auto simp: quiet_def counted_def tracker_def unitsOf_def dest: quiet_find)


subsection \<open>An arrival\<close>

lemma andThen_Inr: "m s = (Inr x, s1) \<Longrightarrow> andThen m f s = f x s1"
  by (simp add: andThen_def)

lemma checkBatchCompletion_counts:
  assumes s: "sound s" and c: "tracker bid s = Some b"
  shows "\<exists>s' b'. checkBatchCompletion bid s = (Inr (), s') \<and> sound s' \<and>
           summaries s' = summaries s \<and> tracker bid s' = Some b' \<and>
           receivedCount b' = receivedCount b + 1"
proof -
  let ?inc = "\<lambda>t b. b\<lparr>receivedCount := receivedCount b + 1\<rparr>"
  let ?s1 = "withUpdate bid ?inc s"
  let ?k = "\<lambda>tr. andThen (summaryCountDocuments
                           (\<lambda>x. summaryBatchId x = Some bid \<and> isAudioGenerated x))
                  (\<lambda>summariesWithAudio.
                    andThen (if atLeastHalf (receivedCount tr) (expectedCount tr)
                                \<and> status tr = Pending
                             then handlePartialCompletion bid tr else ret ())
                      (\<lambda>_.
                        andThen (if expectedCount tr \<le> receivedCount tr
                                    \<and> (status tr = Pending \<or> status tr = Partial_complete)
                                 then handleFullCompletion bid tr else ret ())
                          (\<lambda>_.
                            if receivedCount tr \<le> summariesWithAudio \<and> 0 < receivedCount tr
                            then checkBatchAudioCompletion bid else ret ())))"
  from s have f: "faults s = []" by (simp add: sound_def)
  have k: "pres quiet (?k tr)" for tr
    by (intro quiet_andThen quiet_summaryCountDocuments pres_if quiet_ret
        quiet_handlePartialCompletion quiet_handleFullCompletion
        quiet_checkBatchAudioCompletion)
  have s1: "sound ?s1" using s by (simp add: sound_withUpdate)
  have t1: "tracker bid ?s1 = Some (b\<lparr>receivedCount := receivedCount b + 1\<rparr>)"
    using c by (simp add: tracker_withUpdate)
  let ?s' = "snd (?k (b\<lparr>receivedCount := receivedCount b + 1\<rparr>) ?s1)"
  have q: "quiet ?s1 ?s'" using k by (rule presD)
  have e: "checkBatchCompletion bid s = (Inr (), ?s')"
  proof -
    have u: "batchFindOneAndUpdate (\<lambda>b. batchId b = bid) ?inc s
               = (Inr (Some (b\<lparr>receivedCount := receivedCount b + 1\<rparr>)), ?s1)"
      using c by (simp add: update_sound [OF f])
    have v: "andThen (batchFindOneAndUpdate (\<lambda>b. batchId b = bid) ?inc) F s
               = F (Some (b\<lparr>receivedCount := receivedCount b + 1\<rparr>)) ?s1" for F
      using u by (rule andThen_Inr)
    have "snd (checkBatchCompletion bid s) = ?s'"
      by (simp only: checkBatchCompletion_def snd_tryCatch_logOnly v option.case)
    moreover have "fst (checkBatchCompletion bid s) = Inr ()"
      by (rule fst_checkBatchCompletion)
    ultimately show ?thesis by (simp add: prod_eq_iff)
  qed
  from q t1 obtain b' where "tracker bid ?s' = Some b'"
    "receivedCount b' = receivedCount b + 1"
    by (auto simp: quiet_def tracker_def dest: quiet_find)
  moreover have "sound ?s'" using q s1 by (rule quiet_sound)
  moreover have "summaries ?s' = summaries s" using q by (simp add: quiet_def)
  ultimately show ?thesis using e by blast
qed

lemma arrival_counts:
  assumes s: "sound s" and t: "tracker bid s = Some b"
    and v: "validSummary body uid stype title" and n: "bid \<noteq> []"
  shows "\<exists>b'. sound (exec (SummaryArrived body uid stype title (Some bid)) s) \<and>
           tracker bid (exec (SummaryArrived body uid stype title (Some bid)) s) = Some b' \<and>
           receivedCount b' = receivedCount b + 1 \<and>
           length (unitsOf bid (exec (SummaryArrived body uid stype title (Some bid)) s))
             = length (unitsOf bid s) + 1"
proof -
  let ?doc = "newSummaryDoc s body uid stype title (Some bid)"
  let ?s1 = "s\<lparr>summaries := summaries s @ [?doc], nextId := nextId s + 1\<rparr>"
  from s have f: "faults s = []" by (simp add: sound_def)
  have s1: "sound ?s1" using s by (simp add: sound_def distinctIds_def)
  have t1: "tracker bid ?s1 = Some b" using t by (simp add: tracker_def)
  have u1: "unitsOf bid ?s1 = unitsOf bid s @ [?doc]"
    by (simp add: unitsOf_def newSummaryDoc_def)
  from checkBatchCompletion_counts [OF s1 t1] obtain s' b' where
    r: "checkBatchCompletion bid ?s1 = (Inr (), s')" and g: "sound s'"
    and u: "summaries s' = summaries ?s1" and t': "tracker bid s' = Some b'"
    and k: "receivedCount b' = receivedCount b + 1"
    by blast
  have "exec (SummaryArrived body uid stype title (Some bid)) s = s'"
    using v n r f
    by (simp add: snd_handleSummaryWebhook saveSummary_def tryCatch_throw andThen_def
        summaryCreate_eq storeFails_nofault consumed_nofault truthy_def ret_def)
  moreover have "unitsOf bid s' = unitsOf bid ?s1" using u by (simp add: unitsOf_def)
  ultimately show ?thesis using g t' k u1 by simp
qed


subsection \<open>A sweep\<close>

lemma selected_iff:
  assumes d: "distinctIds s" and t: "tracker bid s = Some b"
  shows "bid \<in> batchId ` {x \<in> set (batches s). P x} \<longleftrightarrow> P b"
proof
  assume "bid \<in> batchId ` {x \<in> set (batches s). P x}"
  then obtain x where x: "x \<in> set (batches s)" "P x" "batchId x = bid" by auto
  from tracker_member [OF d x(1)] x(3) t have "x = b" by simp
  with x(2) show "P b" by simp
next
  assume p: "P b"
  from t have "b \<in> set (batches s)" "batchId b = bid"
    by (auto simp: tracker_def find_Some_iff in_set_conv_nth)
  with p show "bid \<in> batchId ` {x \<in> set (batches s). P x}" by force
qed

lemma timeout_pass_count:
  assumes s: "sound s" and t: "tracker bid s = Some b"
  shows "\<exists>s'. processTimeoutBatches s = (Inr (), s') \<and> sound s' \<and> sameUnits s s' \<and>
              (if timeoutAt b \<le> now s \<and> (status b = Pending \<or> status b = Partial_complete)
               then counted bid s' else tracker bid s' = Some b)"
proof -
  let ?P = "\<lambda>b. timeoutAt b \<le> now s \<and> (status b = Pending \<or> status b = Partial_complete)"
  from s have d: "distinctIds s" by (simp add: sound_def)
  from t have m: "b \<in> set (batches s)" and i: "batchId b = bid"
    by (auto simp: tracker_def find_Some_iff in_set_conv_nth)
  from processTimeoutBatches_sound [OF s] obtain s' where
    r: "processTimeoutBatches s = (Inr (), s')" and g: "sound s'" and u: "sameUnits s s'"
    and p: "\<forall>b \<in> set (batches s). ?P b \<longrightarrow> timeoutOutcome b s s'"
    and o: "\<forall>k. k \<notin> batchId ` {b \<in> set (batches s). ?P b} \<longrightarrow> untouched k s s'"
    by blast
  from u have e: "unitsOf bid s' = unitsOf bid s" by (simp add: sameUnits_def unitsOf_def)
  have "if ?P b then counted bid s' else tracker bid s' = Some b"
  proof (cases "?P b")
    case True
    with p m have "timeoutOutcome b s s'" by blast
    with i e True show ?thesis by (auto simp: timeoutOutcome_def counted_def)
  next
    case False
    with selected_iff [OF d t, of ?P] o have "untouched bid s s'" by blast
    with t False show ?thesis by (auto simp: untouched_def)
  qed
  with r g u show ?thesis by blast
qed

lemma recovery_pass_count:
  assumes s: "sound s" and t: "tracker bid s = Some b"
  shows "\<exists>s'. processOrphanedSummaries s = (Inr (), s') \<and> sound s' \<and> sameUnits s s' \<and>
              (if status b = Failed \<and> receivedCount b = 0 \<and> unitsOf bid s \<noteq> []
               then counted bid s' else tracker bid s' = Some b)"
proof -
  let ?P = "\<lambda>b. status b = Failed \<and> receivedCount b = 0 \<and> unitsOf (batchId b) s \<noteq> []"
  from s have d: "distinctIds s" by (simp add: sound_def)
  from t have m: "b \<in> set (batches s)" and i: "batchId b = bid"
    by (auto simp: tracker_def find_Some_iff in_set_conv_nth)
  from processOrphanedSummaries_sound [OF s] obtain s' where
    r: "processOrphanedSummaries s = (Inr (), s')" and g: "sound s'" and u: "sameUnits s s'"
    and p: "\<forall>b \<in> set (batches s). ?P b \<longrightarrow> recoveryOutcome b s s'"
    and o: "\<forall>k. k \<notin> batchId ` {b \<in> set (batches s). ?P b} \<longrightarrow> untouched k s s'"
    by blast
  from u have e: "unitsOf bid s' = unitsOf bid s" by (simp add: sameUnits_def unitsOf_def)
  have "if ?P b then counted bid s' else tracker bid s' = Some b"
  proof (cases "?P b")
    case True
    with p m have "recoveryOutcome b s s'" by blast
    with i e True show ?thesis by (auto simp: recoveryOutcome_def counted_def)
  next
    case False
    with selected_iff [OF d t, of ?P] o have "untouched bid s s'" by blast
    with t False show ?thesis by (auto simp: untouched_def)
  qed
  with r g u i show ?thesis by auto
qed

lemma recovery_pass_counted:
  assumes s: "sound s" and c: "counted bid s"
  shows "\<exists>s'. processOrphanedSummaries s = (Inr (), s') \<and> sound s' \<and> sameUnits s s' \<and>
              counted bid s'"
proof -
  from processOrphanedSummaries_sound [OF s] obtain s' where
    r: "processOrphanedSummaries s = (Inr (), s')" and g: "sound s'" and u: "sameUnits s s'"
    and p: "\<forall>b \<in> set (batches s).
              status b = Failed \<and> receivedCount b = 0 \<and> unitsOf (batchId b) s \<noteq> []
              \<longrightarrow> recoveryOutcome b s s'"
    and o: "\<forall>k. k \<notin> batchId ` {b \<in> set (batches s). status b = Failed \<and>
                      receivedCount b = 0 \<and> unitsOf (batchId b) s \<noteq> []}
              \<longrightarrow> untouched k s s'"
    by blast
  from u have e: "unitsOf bid s' = unitsOf bid s" by (simp add: sameUnits_def unitsOf_def)
  have "counted bid s'"
  proof (cases "bid \<in> batchId ` {b \<in> set (batches s). status b = Failed \<and>
                      receivedCount b = 0 \<and> unitsOf (batchId b) s \<noteq> []}")
    case True
    then obtain b where "b \<in> set (batches s)" "batchId b = bid"
      "status b = Failed \<and> receivedCount b = 0 \<and> unitsOf (batchId b) s \<noteq> []" by auto
    with p have "recoveryOutcome b s s'" by blast
    with \<open>batchId b = bid\<close> e show ?thesis by (auto simp: recoveryOutcome_def counted_def)
  next
    case False
    with o have "untouched bid s s'" by blast
    with c e show ?thesis by (simp add: untouched_def counted_def)
  qed
  with r g u show ?thesis by blast
qed

lemma maintenance_reconciles:
  assumes s: "sound s" and t: "tracker bid s = Some b"
  shows "unitsOf bid (exec Maintenance s) = unitsOf bid s \<and>
         (counted bid (exec Maintenance s) \<longleftrightarrow>
            receivedCount b = length (unitsOf bid s) \<or>
            (timeoutAt b \<le> now s \<and> (status b = Pending \<or> status b = Partial_complete)) \<or>
            (status b = Failed \<and> receivedCount b = 0 \<and> unitsOf bid s \<noteq> []))"
proof -
  let ?T = "timeoutAt b \<le> now s \<and> (status b = Pending \<or> status b = Partial_complete)"
  let ?O = "status b = Failed \<and> receivedCount b = 0 \<and> unitsOf bid s \<noteq> []"
  let ?rest = "andThen checkPartialCompletionBatches
                 (\<lambda>_. andThen getBatchStatistics (\<lambda>stats. ret ()))"
  from timeout_pass_count [OF s t] obtain s1 where
    r1: "processTimeoutBatches s = (Inr (), s1)" and g1: "sound s1" and u1: "sameUnits s s1"
    and c1: "if ?T then counted bid s1 else tracker bid s1 = Some b" by blast
  from u1 have e1: "unitsOf bid s1 = unitsOf bid s" by (simp add: sameUnits_def unitsOf_def)
  have q: "pres quiet ?rest"
    by (intro quiet_andThen quiet_checkPartialCompletionBatches quiet_getBatchStatistics
        quiet_ret)
  have fin: "exec Maintenance s = snd (?rest s2)"
    if "processOrphanedSummaries s1 = (Inr (), s2)" for s2
    using r1 that by (simp add: runPeriodicMaintenance_def snd_tryCatch_logOnly andThen_def)
  show ?thesis
  proof (cases ?T)
    case True
    with c1 have k1: "counted bid s1" by simp
    from recovery_pass_counted [OF g1 k1] obtain s2 where
      r2: "processOrphanedSummaries s1 = (Inr (), s2)" and u2: "sameUnits s1 s2"
      and k2: "counted bid s2" by blast
    have q2: "quiet s2 (snd (?rest s2))" using q by (rule presD)
    have "summaries (snd (?rest s2)) = summaries s"
      using q2 u1 u2 by (simp add: quiet_def sameUnits_def)
    then have "unitsOf bid (snd (?rest s2)) = unitsOf bid s" by (simp add: unitsOf_def)
    with quiet_counted [OF q2 k2] fin [OF r2] True show ?thesis by simp
  next
    case False
    with c1 have t1: "tracker bid s1 = Some b" by simp
    from recovery_pass_count [OF g1 t1] e1 obtain s2 where
      r2: "processOrphanedSummaries s1 = (Inr (), s2)" and u2: "sameUnits s1 s2"
      and c2: "if ?O then counted bid s2 else tracker bid s2 = Some b" by auto
    have q2: "quiet s2 (snd (?rest s2))" using q by (rule presD)
    have "summaries (snd (?rest s2)) = summaries s"
      using q2 u1 u2 by (simp add: quiet_def sameUnits_def)
    then have e3: "unitsOf bid (snd (?rest s2)) = unitsOf bid s" by (simp add: unitsOf_def)
    show ?thesis
    proof (cases ?O)
      case True
      with c2 have "counted bid s2" by simp
      with quiet_counted [OF q2] fin [OF r2] e3 True show ?thesis by simp
    next
      case no: False
      with c2 have "tracker bid s2 = Some b" by simp
      with q2 obtain b3 where "tracker bid (snd (?rest s2)) = Some b3"
        "receivedCount b3 = receivedCount b"
        by (auto simp: quiet_def tracker_def dest: quiet_find)
      with fin [OF r2] e3 False no show ?thesis by (auto simp: counted_def)
    qed
  qed
qed

lemma tracker_run:
  assumes "distinctIds s" and "tracker bid s = Some b"
  shows "distinctIds (run evs s) \<and> (\<exists>b'. tracker bid (run evs s) = Some b')"
proof -
  from evolves_run [of s evs] assms(1)
  have "list_all2 trackerStep (batches s) (batches (run evs s))" by (simp add: evolves_def)
  from trackerSteps_find [OF this] assms(2) obtain b' where
    "tracker bid (run evs s) = Some b'" by (auto simp: tracker_def)
  moreover have "distinctIds (run evs s)"
    using evolves_run [of s evs] assms(1) by (rule evolves_distinct)
  ultimately show ?thesis by blast
qed

text \<open>
  C6, amended. The same "summary" request handled twice for a batch with a tracker, then
  a maintenance sweep in which the store works. The sweep writes no unit. After it the
  count of the tracker is the number of persisted units of the batch exactly when it was
  so after the two requests, or the sweep has reconciled the batch: the batch was past
  its deadline and \<open>pending\<close> or \<open>partial_complete\<close> (timeout pass), or \<open>failed\<close> with a
  count of zero and units (recovery pass). When the store works during the two requests
  as well, each of them has persisted a unit and added one to the count, so that the
  count is the number of units after them exactly when it was before.
\<close>

theorem duplicate_arrivals_then_sweep:
  assumes "distinctIds s" and "tracker bid s = Some b"
    and "validSummary body uid stype title" and "bid \<noteq> []"
    and "faults (run [SummaryArrived body uid stype title (Some bid),
                      SummaryArrived body uid stype title (Some bid)] s) = []"
  shows "\<exists>b2. tracker bid (run [SummaryArrived body uid stype title (Some bid),
                               SummaryArrived body uid stype title (Some bid)] s) = Some b2 \<and>
           unitsOf bid (run [SummaryArrived body uid stype title (Some bid),
                             SummaryArrived body uid stype title (Some bid), Maintenance] s)
             = unitsOf bid (run [SummaryArrived body uid stype title (Some bid),
                                 SummaryArrived body uid stype title (Some bid)] s) \<and>
           (counted bid (run [SummaryArrived body uid stype title (Some bid),
                              SummaryArrived body uid stype title (Some bid), Maintenance] s)
            \<longleftrightarrow>
              counted bid (run [SummaryArrived body uid stype title (Some bid),
                                SummaryArrived body uid stype title (Some bid)] s) \<or>
              (timeoutAt b2 \<le> now (run [SummaryArrived body uid stype title (Some bid),
                                        SummaryArrived body uid stype title (Some bid)] s) \<and>
               (status b2 = Pending \<or> status b2 = Partial_complete)) \<or>
              (status b2 = Failed \<and> receivedCount b2 = 0 \<and>
               unitsOf bid (run [SummaryArrived body uid stype title (Some bid),
                                 SummaryArrived body uid stype title (Some bid)] s) \<noteq> [])) \<and>
           (faults s = [] \<longrightarrow>
              receivedCount b2 = receivedCount b + 2 \<and>
              length (unitsOf bid (run [SummaryArrived body uid stype title (Some bid),
                                        SummaryArrived body uid stype title (Some bid)] s))
                = length (unitsOf bid s) + 2 \<and>
              (counted bid (run [SummaryArrived body uid stype title (Some bid),
                                 SummaryArrived body uid stype title (Some bid)] s)
               \<longleftrightarrow> counted bid s))"
proof -
  let ?ev = "SummaryArrived body uid stype title (Some bid)"
  let ?s2 = "run [?ev, ?ev] s"
  from tracker_run [OF assms(1,2), of "[?ev, ?ev]"] obtain b2 where
    d2: "distinctIds ?s2" and t2: "tracker bid ?s2 = Some b2" by blast
  from d2 assms(5) have g2: "sound ?s2" by (simp add: sound_def)
  have e: "run [?ev, ?ev, Maintenance] s = exec Maintenance ?s2" by simp
  have two: "receivedCount b2 = receivedCount b + 2 \<and>
             length (unitsOf bid ?s2) = length (unitsOf bid s) + 2 \<and>
             (counted bid ?s2 \<longleftrightarrow> counted bid s)" if f: "faults s = []"
  proof -
    from assms(1) f have g: "sound s" by (simp add: sound_def)
    from arrival_counts [OF g assms(2,3,4)] obtain b1 where
      a1: "sound (exec ?ev s)" "tracker bid (exec ?ev s) = Some b1"
      "receivedCount b1 = receivedCount b + 1"
      "length (unitsOf bid (exec ?ev s)) = length (unitsOf bid s) + 1" by blast
    from arrival_counts [OF a1(1,2) assms(3,4)] obtain b2' where
      a2: "tracker bid (exec ?ev (exec ?ev s)) = Some b2'"
      "receivedCount b2' = receivedCount b1 + 1"
      "length (unitsOf bid (exec ?ev (exec ?ev s))) = length (unitsOf bid (exec ?ev s)) + 1"
      by blast
    from a2(1) t2 have "b2' = b2" by simp
    with a1 a2 t2 assms(2) show ?thesis by (simp add: counted_def)
  qed
  from maintenance_reconciles [OF g2 t2] have
    m: "unitsOf bid (exec Maintenance ?s2) = unitsOf bid ?s2"
    "counted bid (exec Maintenance ?s2) \<longleftrightarrow>
            receivedCount b2 = length (unitsOf bid ?s2) \<or>
            (timeoutAt b2 \<le> now ?s2 \<and> (status b2 = Pending \<or> status b2 = Partial_complete)) \<or>
            (status b2 = Failed \<and> receivedCount b2 = 0 \<and> unitsOf bid ?s2 \<noteq> [])"
    by simp_all
  have c2: "counted bid ?s2 \<longleftrightarrow> receivedCount b2 = length (unitsOf bid ?s2)"
    using t2 by (simp add: counted_def)
  show ?thesis
    apply (rule exI [of _ b2])
    apply (simp only: e)
    using t2 m c2 two apply blast
    done
qed



theorem duplicate_arrivals_then_sweep_witness:
  "distinctIds (mkSys [mkBatch ''b1'' 20 3 Pending 1000] [mkSummary 0 ''u1'' ''b1'' False] 2000 []) \<and>
   tracker ''b1''
     (mkSys [mkBatch ''b1'' 20 3 Pending 1000] [mkSummary 0 ''u1'' ''b1'' False] 2000 [])
     = Some (mkBatch ''b1'' 20 3 Pending 1000) \<and>
   validSummary ''text'' ''u2'' (Some ''user'') (Some ''Daily Mix'') \<and>
   faults (run [arrival ''u2'' ''b1'', arrival ''u2'' ''b1'']
     (mkSys [mkBatch ''b1'' 20 3 Pending 1000] [mkSummary 0 ''u1'' ''b1'' False] 2000 [])) = [] \<and>
   tracker ''b1'' (run [arrival ''u2'' ''b1'', arrival ''u2'' ''b1'']
     (mkSys [mkBatch ''b1'' 20 3 Pending 1000] [mkSummary 0 ''u1'' ''b1'' False] 2000 []))
     = Some (mkBatch ''b1'' 20 5 Pending 1000) \<and>
   now (run [arrival ''u2'' ''b1'', arrival ''u2'' ''b1'']
     (mkSys [mkBatch ''b1'' 20 3 Pending 1000] [mkSummary 0 ''u1'' ''b1'' False] 2000 [])) = 2000 \<and>
   \<not> counted ''b1'' (run [arrival ''u2'' ''b1'', arrival ''u2'' ''b1'']
     (mkSys [mkBatch ''b1'' 20 3 Pending 1000] [mkSummary 0 ''u1'' ''b1'' False] 2000 [])) \<and>
   counted ''b1'' (run [arrival ''u2'' ''b1'', arrival ''u2'' ''b1'', Maintenance]
     (mkSys [mkBatch ''b1'' 20 3 Pending 1000] [mkSummary 0 ''u1'' ''b1'' False] 2000 [])) \<and>
   map receivedCount (batches (run [arrival ''u2'' ''b1'', arrival ''u2'' ''b1'', Maintenance]
     (mkSys [mkBatch ''b1'' 20 3 Pending 1000] [mkSummary 0 ''u1'' ''b1'' False] 2000 [])))
     = [3] \<and>
   map userId (unitsOf ''b1'' (run [arrival ''u2'' ''b1'', arrival ''u2'' ''b1'', Maintenance]
     (mkSys [mkBatch ''b1'' 20 3 Pending 1000] [mkSummary 0 ''u1'' ''b1'' False] 2000 [])))
     = [''u1'', ''u2'', ''u2'']"
proof -
  let ?s = "mkSys [mkBatch ''b1'' 20 3 Pending 1000] [mkSummary 0 ''u1'' ''b1'' False] 2000 []"
  let ?s2 = "run [arrival ''u2'' ''b1'', arrival ''u2'' ''b1''] ?s"
  let ?s3 = "run [arrival ''u2'' ''b1'', arrival ''u2'' ''b1'', Maintenance] ?s"
  have a: "distinctIds ?s" by (simp add: distinctIds_def mkSys_def mkBatch_def)
  have b: "tracker ''b1'' ?s = Some (mkBatch ''b1'' 20 3 Pending 1000)"
    by (simp add: tracker_def mkSys_def mkBatch_def)
  have c: "validSummary ''text'' ''u2'' (Some ''user'') (Some ''Daily Mix'')"
    by (simp add: validSummary_def)
  have d: "faults ?s2 = []" "tracker ''b1'' ?s2 = Some (mkBatch ''b1'' 20 5 Pending 1000)"
    "now ?s2 = 2000" "\<not> counted ''b1'' ?s2"
    by (simp_all add: engine_defs counted_def)
  have e: "map receivedCount (batches ?s3) = [3]"
    "map userId (unitsOf ''b1'' ?s3) = [''u1'', ''u2'', ''u2'']"
    by (simp_all add: engine_defs runPeriodicMaintenance_def processTimeoutBatches_def
        handleTimeoutBatch_def processOrphanedSummaries_def checkPartialCompletionBatches_def
        getBatchStatistics_def)
  have "counted ''b1'' ?s3"
    using duplicate_arrivals_then_sweep [OF a b c _ d(1) [unfolded arrival_def]] d(2,3)
    by (auto simp: arrival_def mkBatch_def)
  with a b c d e show ?thesis by simp
qed

text \<open>
  C6, as stated: after the two requests and a sweep the count is the number of persisted
  units. A batch of four with one unit, counted, past its deadline. The first request
  persists its unit and the update of the count fails, which is caught and logged; the
  second persists another unit and counts it, which makes two of four: the units are
  dispatched and the batch is \<open>audio_requested\<close>. The sweep only looks at batches that
  are \<open>pending\<close> or \<open>partial_complete\<close> (or \<open>failed\<close> with a count of zero): the count
  stays two, with three units.
\<close>

theorem lost_count_not_reconciled_counterexample:
  "counted ''b1''
     (mkSys [mkBatch ''b1'' 4 1 Pending 1000] [mkSummary 0 ''u1'' ''b1'' False] 2000
        [False, True]) \<and>
   \<not> counted ''b1'' (run [arrival ''u2'' ''b1'', arrival ''u2'' ''b1'', Maintenance]
     (mkSys [mkBatch ''b1'' 4 1 Pending 1000] [mkSummary 0 ''u1'' ''b1'' False] 2000
        [False, True])) \<and>
   map receivedCount (batches (run [arrival ''u2'' ''b1'', arrival ''u2'' ''b1'', Maintenance]
     (mkSys [mkBatch ''b1'' 4 1 Pending 1000] [mkSummary 0 ''u1'' ''b1'' False] 2000
        [False, True]))) = [2] \<and>
   map userId (unitsOf ''b1'' (run [arrival ''u2'' ''b1'', arrival ''u2'' ''b1'', Maintenance]
     (mkSys [mkBatch ''b1'' 4 1 Pending 1000] [mkSummary 0 ''u1'' ''b1'' False] 2000
        [False, True]))) = [''u1'', ''u2'', ''u2''] \<and>
   map status (batches (run [arrival ''u2'' ''b1'', arrival ''u2'' ''b1'', Maintenance]
     (mkSys [mkBatch ''b1'' 4 1 Pending 1000] [mkSummary 0 ''u1'' ''b1'' False] 2000
        [False, True]))) = [Audio_requested] \<and>
   map timeoutAt (batches (run [arrival ''u2'' ''b1'', arrival ''u2'' ''b1'']
     (mkSys [mkBatch ''b1'' 4 1 Pending 1000] [mkSummary 0 ''u1'' ''b1'' False] 2000
        [False, True]))) = [1000] \<and>
   2000 \<le> now (run [arrival ''u2'' ''b1'', arrival ''u2'' ''b1'']
     (mkSys [mkBatch ''b1'' 4 1 Pending 1000] [mkSummary 0 ''u1'' ''b1'' False] 2000
        [False, True]))"
  by (simp add: engine_defs counted_def runPeriodicMaintenance_def processTimeoutBatches_def
        handleTimeoutBatch_def processOrphanedSummaries_def checkPartialCompletionBatches_def
        getBatchStatistics_def)

section \<open>One invocation, step by step\<close>

lemma alone_add: "alone (j + k) bid c = alone j bid (alone k bid c)"
  by (induction j) (simp_all split: prod.splits)

lemma alone_ended: "ended p \<Longrightarrow> alone k bid (p, t) = (p, t)"
  by (induction k) (auto simp: ended_def)

lemma alone_send:
  "xs \<noteq> [] \<Longrightarrow> alone (length xs) bid (AtSend xs, s) = (AtMark, sendAll xs bid s)"
proof (induction xs bid s rule: sendAll.induct)
  case (1 bid s)
  then show ?case by simp
next
  case (2 x bid s)
  show ?case by simp
next
  case (3 x y ys bid s)
  have "alone (length (x # y # ys)) bid (AtSend (x # y # ys), s)
        = alone (length (y # ys) + 1) bid (AtSend (x # y # ys), s)" by simp
  also have "\<dots> = alone (length (y # ys)) bid (alone 1 bid (AtSend (x # y # ys), s))"
    by (rule alone_add)
  also have "\<dots> = alone (length (y # ys)) bid
                      (AtSend (y # ys), delay 1000 (sendIndividualSummaryForAudio x bid s))"
    by simp
  also have "\<dots> = (AtMark, sendAll (y # ys) bid
                               (delay 1000 (sendIndividualSummaryForAudio x bid s)))"
    using 3 by simp
  finally show ?case by simp
qed


lemma trigger_steps:
  "\<exists>k. alone k bid (AtStatusQuery, s) =
         (case fst (triggerAudioGeneration bid s) of Inl e \<Rightarrow> Won | Inr u \<Rightarrow> AtMark,
          snd (triggerAudioGeneration bid s))"
proof -
  let ?found = "filter (\<lambda>x. summaryBatchId x = Some bid \<and> \<not> isAudioGenerated x) (summaries s)"
  let ?s1 = "consumed s" and ?s2 = "consumed (consumed s)"
  let ?s3 = "consumed (consumed (consumed s))"
  let ?processed = "case find (\<lambda>b. batchId b = bid) (batches s) of
                      None \<Rightarrow> False | Some b \<Rightarrow> audioProcessed (status b)"
  let ?goal = "\<lambda>k. alone k bid (AtStatusQuery, s) =
         (case fst (triggerAudioGeneration bid s) of Inl e \<Rightarrow> Won | Inr u \<Rightarrow> AtMark,
          snd (triggerAudioGeneration bid s))"
  consider (a) "storeFails s" | (b) "\<not> storeFails s" "?processed"
    | (c) "\<not> storeFails s" "\<not> ?processed" "storeFails ?s1"
    | (d) "\<not> storeFails s" "\<not> ?processed" "\<not> storeFails ?s1" "?found = []"
    | (e) "\<not> storeFails s" "\<not> ?processed" "\<not> storeFails ?s1" "?found \<noteq> []"
          "storeFails ?s2"
    | (f) "\<not> storeFails s" "\<not> ?processed" "\<not> storeFails ?s1" "?found \<noteq> []"
          "\<not> storeFails ?s2"
    by blast
  then show ?thesis
  proof cases
    case a
    then have "?goal (Suc 0)"
      by (simp add: triggerAudioGeneration_def tryCatch_throw andThen_def batchFindOne_def
          storeCall_eq)
    then show ?thesis ..
  next
    case b
    then have "?goal (Suc 0)"
      by (simp add: triggerAudioGeneration_def tryCatch_throw andThen_def batchFindOne_def
          storeCall_eq ret_def)
    then show ?thesis ..
  next
    case c
    then have "?goal (Suc (Suc 0))"
      by (simp add: triggerAudioGeneration_def tryCatch_throw andThen_def batchFindOne_def
          summaryFind_def storeCall_eq ret_def)
    then show ?thesis ..
  next
    case d
    then have "?goal (Suc (Suc 0))"
      by (simp add: triggerAudioGeneration_def tryCatch_throw andThen_def batchFindOne_def
          summaryFind_def storeCall_eq ret_def)
    then show ?thesis ..
  next
    case e
    then have "?goal (Suc (Suc (Suc 0)))"
      by (simp add: triggerAudioGeneration_def tryCatch_throw andThen_def batchFindOne_def
          summaryFind_def summaryCountDocuments_def storeCall_eq ret_def)
    then show ?thesis ..
  next
    case f
    then have t: "triggerAudioGeneration bid s = (Inr (), sendAll ?found bid ?s3)"
      by (simp add: triggerAudioGeneration_def tryCatch_throw andThen_def batchFindOne_def
          summaryFind_def summaryCountDocuments_def storeCall_eq ret_def)
    from f have "alone (Suc (Suc (Suc 0))) bid (AtStatusQuery, s) = (AtSend ?found, ?s3)"
      by (simp add: batchFindOne_def summaryFind_def summaryCountDocuments_def storeCall_eq)
    then have "alone (length ?found + Suc (Suc (Suc 0))) bid (AtStatusQuery, s)
               = alone (length ?found) bid (AtSend ?found, ?s3)"
      by (simp only: alone_add)
    also have "\<dots> = (AtMark, sendAll ?found bid ?s3)"
      using f(4) by (rule alone_send)
    finally have "?goal (length ?found + Suc (Suc (Suc 0)))" using t by simp
    then show ?thesis ..
  qed
qed

lemma handlePartialCompletion_steps:
  "\<exists>k p. alone k bid (AtUpdate, s) = (p, snd (handlePartialCompletion bid tr s)) \<and> ended p"
proof -
  let ?cas = "batchFindOneAndUpdate
             (\<lambda>b. batchId b = bid \<and> status b = Pending)
             (\<lambda>t b. b\<lparr>status := Partial_complete, partialCompletedAt := Some t\<rparr>)"
  obtain r s1 where c: "?cas s = (r, s1)" by (cases "?cas s")
  show ?thesis
  proof (cases "\<exists>x. r = Inr (Some x)")
    case False
    then have e1: "alone (Suc 0) bid (AtUpdate, s) = (Lost, s1)"
      using c by (cases r) (auto split: option.splits)
    have e2: "snd (handlePartialCompletion bid tr s) = s1"
      using c False
      by (cases r) (auto simp: handlePartialCompletion_def snd_tryCatch_logOnly andThen_def
          ret_def split: option.splits)
    show ?thesis
      unfolding e2 using e1
      by (intro exI [of _ "Suc 0"] exI [of _ Lost]) (simp add: ended_def del: alone.simps)
  next
    case True
    then obtain x where r: "r = Inr (Some x)" by blast
    with c have u: "alone (Suc 0) bid (AtUpdate, s) = (AtStatusQuery, s1)" by simp
    from trigger_steps [of bid s1] obtain k where
      k: "alone k bid (AtStatusQuery, s1) =
            (case fst (triggerAudioGeneration bid s1) of Inl e \<Rightarrow> Won | Inr u \<Rightarrow> AtMark,
             snd (triggerAudioGeneration bid s1))" by blast
    obtain q s2 where t: "triggerAudioGeneration bid s1 = (q, s2)"
      by (cases "triggerAudioGeneration bid s1")
    have h: "snd (handlePartialCompletion bid tr s) =
               (case q of Inl e \<Rightarrow> s2 | Inr u \<Rightarrow> snd (markAudioRequested bid s2))"
      using c r t
      by (simp add: handlePartialCompletion_def snd_tryCatch_logOnly andThen_def
          split: sum.splits)
    have a: "alone (k + Suc 0) bid (AtUpdate, s) = alone k bid (AtStatusQuery, s1)"
      using u by (simp only: alone_add)
    show ?thesis
    proof (cases q)
      case (Inl e)
      with k t a h have "alone (k + Suc 0) bid (AtUpdate, s)
                          = (Won, snd (handlePartialCompletion bid tr s))" by simp
      then show ?thesis unfolding ended_def by blast
    next
      case (Inr v)
      with k t a have "alone (k + Suc 0) bid (AtUpdate, s) = (AtMark, s2)" by simp
      then have "alone (Suc (k + Suc 0)) bid (AtUpdate, s)
                 = (Won, snd (markAudioRequested bid s2))" by simp
      with h Inr have "alone (Suc (k + Suc 0)) bid (AtUpdate, s)
                 = (Won, snd (handlePartialCompletion bid tr s))" by (simp del: alone.simps)
      then show ?thesis unfolding ended_def by blast
    qed
  qed
qed

section \<open>The race for the first transition\<close>

lemma first_step:
  assumes "sound s" and "tracker bid s = Some b" and "status b = Pending"
  shows "stepProc bid AtUpdate s =
           (AtStatusQuery,
            withUpdate bid (\<lambda>t b. b\<lparr>status := Partial_complete, partialCompletedAt := Some t\<rparr>) s)"
  using assms by (simp add: cas_sound)

lemma late_step:
  assumes "sound t" and "tracker bid t = Some b'" and "status b' \<noteq> Pending"
  shows "stepProc bid AtUpdate t = (Lost, t)"
  using assms by (simp add: cas_sound)

lemma passed_step:
  assumes "passed bid t" and "beyond p"
  shows "passed bid (snd (stepProc bid p t)) \<and> beyond (fst (stepProc bid p t))"
proof -
  from assms(1) have f: "faults t = []" by (simp add: passed_def sound_def)
  show ?thesis
  proof (cases p)
    case (AtSend xs)
    have "passed bid (sendIndividualSummaryForAudio x bid t)" for x
      using assms(1)
      by (simp add: passed_def sound_def distinctIds_def tracker_def
          sendIndividualSummaryForAudio_def)
    moreover have "passed bid (delay 1000 (sendIndividualSummaryForAudio x bid t))" for x
      using assms(1)
      by (simp add: passed_def sound_def distinctIds_def tracker_def
          sendIndividualSummaryForAudio_def delay_def)
    ultimately show ?thesis using AtSend assms(1)
      by (cases xs; cases "tl xs") (auto simp: beyond_def)
  next
    case AtMark
    with assms(1) f show ?thesis
      by (auto simp: passed_def beyond_def markAudioRequested_def snd_andThen_unit
          update_sound sound_withUpdate tracker_withUpdate)
  qed (use assms f in \<open>auto simp: beyond_def batchFindOne_def summaryFind_def
        summaryCountDocuments_def storeCall_sound\<close>)
qed


lemma passed_alone:
  assumes "sound s" and "tracker bid s = Some b" and "status b = Pending"
  shows "passed bid (snd (alone (Suc k) bid (AtUpdate, s))) \<and>
         beyond (fst (alone (Suc k) bid (AtUpdate, s)))"
proof (induction k)
  case 0
  have "alone (Suc 0) bid (AtUpdate, s) = stepProc bid AtUpdate s" by simp
  then show ?case
    using assms
    by (simp only: first_step [OF assms])
       (simp add: passed_def beyond_def sound_withUpdate tracker_withUpdate)
next
  case (Suc k)
  obtain p t where a: "alone (Suc k) bid (AtUpdate, s) = (p, t)"
    by (cases "alone (Suc k) bid (AtUpdate, s)")
  with Suc have "passed bid t" "beyond p" by simp_all
  then have "passed bid (snd (stepProc bid p t)) \<and> beyond (fst (stepProc bid p t))"
    by (rule passed_step)
  moreover have "alone (Suc (Suc k)) bid (AtUpdate, s) = stepProc bid p t"
    using a by (simp del: alone.simps add: alone.simps(2) [of "Suc k"])
  ultimately show ?case by (simp del: alone.simps)
qed

lemma count_one:
  "i < length ps \<Longrightarrow> P (ps ! i) \<Longrightarrow> \<forall>j < length ps. j \<noteq> i \<longrightarrow> \<not> P (ps ! j) \<Longrightarrow>
   length (filter P ps) = 1"
proof (induction ps arbitrary: i)
  case Nil
  then show ?case by simp
next
  case (Cons x xs)
  show ?case
  proof (cases i)
    case 0
    have "\<not> P y" if "y \<in> set xs" for y
    proof -
      from that obtain j where j: "j < length xs" "xs ! j = y"
        by (auto simp: in_set_conv_nth)
      from Cons.prems(3) [rule_format, of "Suc j"] j 0 show ?thesis by simp
    qed
    then have "filter P xs = []" by (simp add: filter_empty_conv)
    with Cons.prems(2) 0 show ?thesis by simp
  next
    case (Suc i')
    have b: "\<forall>j < length xs. j \<noteq> i' \<longrightarrow> \<not> P (xs ! j)"
    proof (intro allI impI)
      fix j assume "j < length xs" "j \<noteq> i'"
      with Cons.prems(3) [rule_format, of "Suc j"] Suc show "\<not> P (xs ! j)" by simp
    qed
    from Cons.prems(3) [rule_format, of 0] Suc have n: "\<not> P x" by simp
    from Cons.prems Suc have "i' < length xs" "P (xs ! i')" by simp_all
    then have "length (filter P xs) = 1" using b by (rule Cons.IH)
    with n show ?thesis by simp
  qed
qed

lemma handlePartialCompletion_sound:
  assumes "sound s" and "tracker bid s = Some b" and "status b = Pending"
  shows "changesOf bid (snd (handlePartialCompletion bid tr s)) =
           changesOf bid s @ [(Pending, Partial_complete), (Partial_complete, Audio_requested)] \<and>
         dispatchedFor bid (snd (handlePartialCompletion bid tr s)) =
           dispatchedFor bid s @ map summaryId (unitsLackingAudio bid s)"
proof -
  from assms(1) have f: "faults s = []" by (simp add: sound_def)
  show ?thesis
    using assms f by (auto simp add: handlePartialCompletion_def sound_exec)
qed

lemma alone_ended_unique:
  assumes "alone k bid c = (p, t)" and "ended p" and "alone k' bid c = (p', t')" and "ended p'"
  shows "(p, t) = (p', t')"
proof -
  have "alone (k' + k) bid c = (p, t)"
    using assms(1,2) by (simp only: alone_add alone_ended)
  moreover have "alone (k + k') bid c = (p', t')"
    using assms(3,4) by (simp only: alone_add alone_ended)
  ultimately show ?thesis by (simp only: add.commute [of k k'])
qed

section \<open>The race between invocations of the evaluator\<close>

lemma stepProc_effects:
  assumes "passed bid t"
  shows "summaries (snd (stepProc bid p t)) = summaries t \<and>
         (\<exists>X. changesOf bid (snd (stepProc bid p t)) = changesOf bid t @ X) \<and>
         (\<exists>Y. dispatchedFor bid (snd (stepProc bid p t)) = dispatchedFor bid t @ Y)"
proof -
  from assms have f: "faults t = []" by (simp add: passed_def sound_def)
  from assms obtain b' where p: "sound t" "tracker bid t = Some b'" "status b' \<noteq> Pending"
    by (auto simp: passed_def)
  show ?thesis
  proof (cases p)
    case AtUpdate
    with late_step [OF p] show ?thesis by simp
  next
    case (AtSend xs)
    then show ?thesis
      by (cases xs; cases "tl xs")
         (auto simp: sendIndividualSummaryForAudio_def delay_def changesOf_def dispatchedFor_def)
  next
    case AtMark
    with f show ?thesis
      by (simp add: markAudioRequested_def snd_andThen_unit update_sound changesOf_withUpdate)
  qed (use f in \<open>auto simp: batchFindOne_def summaryFind_def
        summaryCountDocuments_def storeCall_sound\<close>)
qed

lemma alone_units:
  assumes "sound s" and "tracker bid s = Some b" and "status b = Pending"
  shows "summaries (snd (alone (Suc k) bid (AtUpdate, s))) = summaries s"
proof (induction k)
  case 0
  have "alone (Suc 0) bid (AtUpdate, s) = stepProc bid AtUpdate s" by simp
  then show ?case by (simp only: first_step [OF assms]) simp
next
  case (Suc k)
  obtain p t where a: "alone (Suc k) bid (AtUpdate, s) = (p, t)"
    by (cases "alone (Suc k) bid (AtUpdate, s)")
  from passed_alone [OF assms, of k] a have "passed bid t" by simp
  then have "summaries (snd (stepProc bid p t)) = summaries t"
    using stepProc_effects by blast
  moreover have "alone (Suc (Suc k)) bid (AtUpdate, s) = stepProc bid p t"
    using a by (simp del: alone.simps add: alone.simps(2) [of "Suc k"])
  ultimately show ?case using Suc a by (simp del: alone.simps)
qed

lemma more_units:
  assumes "unitsLackingAudio bid s \<noteq> []"
  shows "length (filter (\<lambda>x. summaryBatchId x = Some bid \<and> isAudioGenerated x) (summaries s))
         < length (unitsOf bid s)"
  using assms
    length_filter_split [of "\<lambda>x. summaryBatchId x = Some bid" "summaries s" isAudioGenerated]
  by (simp add: unitsOf_def unitsLackingAudio_def)

lemma afterFull_tail: "tailStage bid s (afterFull v)"
  by (simp add: afterFull_def)

lemma afterPartial_tail: "observes v \<Longrightarrow> tailStage bid s (afterPartial v)"
  by (simp add: afterPartial_def afterFull_def observes_def)

lemma count_step:
  assumes "sound t" and "observes v" and "stage v = CountAudio"
    and "stepStage bid v (stage v) t = (v', t')"
  shows "t' = t \<and> seen v' = seen v \<and> wrote v' = wrote v \<and> dispatched v' = dispatched v \<and>
         stage v' = Partial AtUpdate"
proof -
  from assms(1) have f: "faults t = []" by (simp add: sound_def)
  from assms(2,3,4) show ?thesis
    by (auto simp: summaryCountDocuments_sound [OF f] afterCount_def observes_def)
qed

lemma first_stage_step:
  assumes "sound s" and "tracker bid s = Some b" and "status b = Pending"
    and "stage v = Partial AtUpdate"
  shows "stepStage bid v (stage v) s =
           (v\<lparr>stage := Partial AtStatusQuery\<rparr>,
            withUpdate bid (\<lambda>t b. b\<lparr>status := Partial_complete, partialCompletedAt := Some t\<rparr>) s)"
  using assms(4) first_step [OF assms(1,2,3)] by (simp add: ended_def del: stepProc.simps)

lemma quiet_step:
  assumes p: "passed bid t" and u: "summaries t = summaries s"
    and l: "unitsLackingAudio bid s \<noteq> []" and o: "observes v"
    and q: "quietStage bid s (stage v) \<or> stage v = Partial Won"
    and e: "stepStage bid v (stage v) t = (v', t')"
  shows "t' = t \<and> seen v' = seen v \<and> wrote v' = wrote v \<and> dispatched v' = dispatched v \<and>
         quietStage bid s (stage v') \<and>
         (stage v \<noteq> CountAudio \<and> stage v \<noteq> Partial AtUpdate \<longrightarrow> tailStage bid s (stage v'))"
proof -
  from p have f: "faults t = []" by (simp add: passed_def sound_def)
  from p obtain b' where s: "sound t" and tr: "tracker bid t = Some b'"
    and st: "status b' \<noteq> Pending"
    by (auto simp: passed_def)
  from tr have fnd: "find (\<lambda>b. batchId b = bid) (batches t) = Some b'" by (simp add: tracker_def)
  show ?thesis
  proof (cases "stage v")
    case CountAudio
    with count_step [OF s o _ e] show ?thesis by (simp add: quietStage_def)
  next
    case (Partial ph)
    with q have "ph = AtUpdate \<or> ph = Lost \<or> ph = Won" by (auto simp: quietStage_def)
    then show ?thesis
    proof (elim disjE)
      assume "ph = AtUpdate"
      with Partial e late_step [OF s tr st] show ?thesis
        by (auto simp: ended_def quietStage_def)
    next
      assume "ph = Lost"
      with Partial e afterPartial_tail [OF o, of bid s] show ?thesis
        by (auto simp: ended_def quietStage_def)
    next
      assume "ph = Won"
      with Partial e afterPartial_tail [OF o, of bid s] show ?thesis
        by (auto simp: ended_def quietStage_def)
    qed
  next
    case FullUpdate
    with e s tr st afterFull_tail [of bid s v] show ?thesis
      by (auto simp: cas_sound quietStage_def)
  next
    case (FullRest ph)
    with q show ?thesis by (simp add: quietStage_def)
  next
    case CompleteUpdate
    with q show ?thesis by (simp add: quietStage_def)
  next
    case AudioQuery
    with e f fnd show ?thesis
      by (auto simp: batchFindOne_def storeCall_sound quietStage_def)
  next
    case AudioTotal
    with e f u show ?thesis
      by (auto simp: summaryCountDocuments_sound quietStage_def unitsOf_def)
  next
    case (AudioWith n)
    with q have n: "n = length (unitsOf bid s)" by (simp add: quietStage_def)
    from more_units [OF l] u n
    have "\<not> n \<le> length (filter (\<lambda>x. summaryBatchId x = Some bid \<and> isAudioGenerated x)
                            (summaries t))"
      by simp
    with AudioWith e f show ?thesis
      by (auto simp: summaryCountDocuments_sound quietStage_def)
  next
    case AudioUpdate
    with q show ?thesis by (simp add: quietStage_def)
  next
    case Finished
    with e show ?thesis by (auto simp: quietStage_def)
  qed
qed


lemma inside_step:
  assumes "stage v = Partial p" and "\<not> ended p"
  shows "stepStage bid v (stage v) t =
           (v\<lparr>stage := Partial (fst (stepProc bid p t))\<rparr>, snd (stepProc bid p t))"
  using assms by (simp del: stepProc.simps split: prod.splits)

lemma stepAt_eq:
  assumes "i < length vs" and "stepStage bid (vs ! i) (stage (vs ! i)) t = (v', t')"
  shows "stepAt bid i (vs, t) =
           (vs[i := v'\<lparr>wrote := wrote v' @ drop (length (changesOf bid t)) (changesOf bid t'),
                      dispatched := dispatched v' @
                        drop (length (dispatchedFor bid t)) (dispatchedFor bid t')\<rparr>], t')"
  using assms by (simp add: stepAt_def)

lemma raceInvI_fresh:
  "t = s \<Longrightarrow>
   \<forall>v \<in> set vs. idle bid s v \<and> (stage v = CountAudio \<or> stage v = Partial AtUpdate) \<Longrightarrow>
   raceInv bid s (vs, t)"
  unfolding raceInv_def prod.case by (rule disjI1) (rule conjI)

lemma raceInvI_lead:
  "w < length vs \<Longrightarrow> lead bid s (vs ! w) t \<Longrightarrow>
   \<forall>j < length vs. j \<noteq> w \<longrightarrow> idle bid s (vs ! j) \<Longrightarrow>
   raceInv bid s (vs, t)"
  unfolding raceInv_def prod.case
  apply (rule disjI2)
  apply (rule exI [of _ w])
  apply (rule conjI, assumption)
  apply (rule conjI, assumption)
  apply assumption
  done

lemma raceInv_stepAt:
  assumes s: "sound s" and tr: "tracker bid s = Some b" and st: "status b = Pending"
    and l: "unitsLackingAudio bid s \<noteq> []" and inv: "raceInv bid s c"
  shows "raceInv bid s (stepAt bid i c)"
proof -
  obtain vs t where c: "c = (vs, t)" by (cases c)
  show ?thesis
  proof (cases "i < length vs")
    case False
    with inv c show ?thesis by (simp add: stepAt_def)
  next
    case True
    obtain v' t' where e: "stepStage bid (vs ! i) (stage (vs ! i)) t = (v', t')"
      by (cases "stepStage bid (vs ! i) (stage (vs ! i)) t")
    define v'' where
      "v'' = v'\<lparr>wrote := wrote v' @ drop (length (changesOf bid t)) (changesOf bid t'),
                dispatched := dispatched v' @
                  drop (length (dispatchedFor bid t)) (dispatchedFor bid t')\<rparr>"
    have sa: "stepAt bid i c = (vs[i := v''], t')"
      unfolding c v''_def using True e by (rule stepAt_eq)
    have fields: "seen v'' = seen v'" "stage v'' = stage v'" by (simp_all add: v''_def)
    have same: "wrote v'' = wrote v'" "dispatched v'' = dispatched v'" if "t' = t"
      using that by (simp_all add: v''_def)
    from inv c consider
      (fresh) "t = s"
        "\<forall>v \<in> set vs. idle bid s v \<and> (stage v = CountAudio \<or> stage v = Partial AtUpdate)"
      | (ahead) w where "w < length vs" "lead bid s (vs ! w) t"
          "\<forall>j < length vs. j \<noteq> w \<longrightarrow> idle bid s (vs ! j)"
      by (auto simp: raceInv_def)
    then show ?thesis
    proof cases
      case fresh
      from fresh(2) True have iv: "idle bid s (vs ! i)"
        and fs: "stage (vs ! i) = CountAudio \<or> stage (vs ! i) = Partial AtUpdate"
        by simp_all
      from iv have o: "observes (vs ! i)" and w0: "wrote (vs ! i) = []"
        and d0: "dispatched (vs ! i) = []"
        by (simp_all add: idle_def)
      from fs show ?thesis
      proof
        assume ca: "stage (vs ! i) = CountAudio"
        from s fresh(1) have "sound t" by simp
        from count_step [OF this o ca e]
        have r: "t' = t" "seen v' = seen (vs ! i)" "wrote v' = wrote (vs ! i)"
          "dispatched v' = dispatched (vs ! i)" "stage v' = Partial AtUpdate"
          by simp_all
        have "idle bid s v''"
          using r o w0 d0 fields same [OF r(1)]
          by (simp add: idle_def observes_def quietStage_def)
        moreover have "stage v'' = Partial AtUpdate" using r fields by simp
        ultimately have "\<forall>v \<in> set (vs[i := v'']).
            idle bid s v \<and> (stage v = CountAudio \<or> stage v = Partial AtUpdate)"
          using fresh(2) set_update_subset_insert [of vs i v''] by auto
        moreover have "t' = s" using r(1) fresh(1) by simp
        ultimately show ?thesis unfolding sa by (rule raceInvI_fresh [rotated])
      next
        assume pu: "stage (vs ! i) = Partial AtUpdate"
        let ?s1 = "withUpdate bid
                     (\<lambda>t b. b\<lparr>status := Partial_complete, partialCompletedAt := Some t\<rparr>) s"
        from first_stage_step [OF s tr st pu] e fresh(1)
        have r: "v' = (vs ! i)\<lparr>stage := Partial AtStatusQuery\<rparr>" "t' = ?s1" by simp_all
        have ch: "changesOf bid ?s1 = changesOf bid s @ [(Pending, Partial_complete)]"
          using tr st by (simp add: changesOf_withUpdate)
        have di: "dispatchedFor bid ?s1 = dispatchedFor bid s" by simp
        have w1: "wrote v'' = [(Pending, Partial_complete)]"
          using r w0 ch fresh(1) by (simp add: v''_def)
        have d1: "dispatched v'' = []"
          using r d0 fresh(1) by (simp add: v''_def)
        have a: "(AtStatusQuery, ?s1) = alone (Suc 0) bid (AtUpdate, s)"
          using first_step [OF s tr st] by (simp del: stepProc.simps)
        have ld: "lead bid s v'' t'"
          unfolding lead_def
        proof (intro conjI)
          show "observes v''" using o r fields by (simp add: observes_def)
          show "winner v''" using w1 by (simp add: winner_def)
          show "changesOf bid t' = changesOf bid s @ wrote v''" using r ch w1 by simp
          show "dispatchedFor bid t' = dispatchedFor bid s @ dispatched v''"
            using r d1 by simp
          have "stage v'' = Partial AtStatusQuery" using r fields by simp
          with a r(2) show "\<exists>k p. (p, t') = alone (Suc k) bid (AtUpdate, s) \<and>
                  (stage v'' = Partial p \<or> (p = Won \<and> tailStage bid s (stage v'')))"
            by blast
        qed
        have l1: "i < length (vs[i := v''])" using True by simp
        have l2: "lead bid s (vs[i := v''] ! i) t'" using True ld by simp
        have l3: "\<forall>j < length (vs[i := v'']). j \<noteq> i \<longrightarrow> idle bid s (vs[i := v''] ! j)"
          using fresh(2) by simp
        show ?thesis unfolding sa using l1 l2 l3 by (rule raceInvI_lead)
      qed
    next
      case ahead
      from ahead(2) obtain k p where
        kp: "(p, t) = alone (Suc k) bid (AtUpdate, s)"
        and sp: "stage (vs ! w) = Partial p \<or> (p = Won \<and> tailStage bid s (stage (vs ! w)))"
        and ow: "observes (vs ! w)" and ww: "winner (vs ! w)"
        and cw: "changesOf bid t = changesOf bid s @ wrote (vs ! w)"
        and dw: "dispatchedFor bid t = dispatchedFor bid s @ dispatched (vs ! w)"
        by (auto simp: lead_def)
      from passed_alone [OF s tr st, of k] kp [symmetric]
      have pt: "passed bid t" and bp: "beyond p" by simp_all
      from alone_units [OF s tr st, of k] kp [symmetric]
      have ut: "summaries t = summaries s" by simp
      show ?thesis
      proof (cases "i = w")
        case False
        with True ahead(3) have iv: "idle bid s (vs ! i)" by simp
        then have o: "observes (vs ! i)" and w0: "wrote (vs ! i) = []"
          and d0: "dispatched (vs ! i) = []" and q: "quietStage bid s (stage (vs ! i))"
          by (simp_all add: idle_def)
        from q have "quietStage bid s (stage (vs ! i)) \<or> stage (vs ! i) = Partial Won" ..
        from quiet_step [OF pt ut l o this e]
        have r: "t' = t" "seen v' = seen (vs ! i)" "wrote v' = wrote (vs ! i)"
          "dispatched v' = dispatched (vs ! i)" "quietStage bid s (stage v')"
          by simp_all
        have iv': "idle bid s v''"
          using r o w0 d0 fields same [OF r(1)] by (simp add: idle_def observes_def)
        have l1: "w < length (vs[i := v''])" using ahead(1) by simp
        have l2: "lead bid s (vs[i := v''] ! w) t'" using ahead(2) False r(1) by simp
        have l3: "\<forall>j < length (vs[i := v'']). j \<noteq> w \<longrightarrow> idle bid s (vs[i := v''] ! j)"
          using ahead(3) iv' True by (auto simp: nth_list_update)
        show ?thesis unfolding sa using l1 l2 l3 by (rule raceInvI_lead)
      next
        case iw: True
        have l1: "w < length (vs[i := v''])" using ahead(1) by simp
        have l3: "\<forall>j < length (vs[i := v'']). j \<noteq> w \<longrightarrow> idle bid s (vs[i := v''] ! j)"
          using ahead(3) iw by simp
        have ld: "lead bid s v'' t'"
        proof (cases "stage (vs ! w) = Partial p \<and> \<not> ended p")
          case True
          from inside_step [of "vs ! w" p bid t] True e iw
          have r: "v' = (vs ! w)\<lparr>stage := Partial (fst (stepProc bid p t))\<rparr>"
            "t' = snd (stepProc bid p t)" by simp_all
          from stepProc_effects [OF pt, of p] r(2) obtain X Y where
            x: "changesOf bid t' = changesOf bid t @ X"
            and y: "dispatchedFor bid t' = dispatchedFor bid t @ Y" by auto
          have w1: "wrote v'' = wrote (vs ! w) @ X" using r(1) x by (simp add: v''_def)
          have d1: "dispatched v'' = dispatched (vs ! w) @ Y" using r(1) y by (simp add: v''_def)
          have a: "(fst (stepProc bid p t), t') = alone (Suc (Suc k)) bid (AtUpdate, s)"
            using kp [symmetric] r(2)
            by (simp del: alone.simps stepProc.simps add: alone.simps(2) [of "Suc k"])
          show ?thesis
            unfolding lead_def
          proof (intro conjI)
            show "observes v''" using ow r fields by (simp add: observes_def)
            show "winner v''" using ww w1 by (simp add: winner_def)
            show "changesOf bid t' = changesOf bid s @ wrote v''" using x cw w1 by simp
            show "dispatchedFor bid t' = dispatchedFor bid s @ dispatched v''"
              using y dw d1 by simp
            have "stage v'' = Partial (fst (stepProc bid p t))" using r fields by simp
            with a show "\<exists>k p. (p, t') = alone (Suc k) bid (AtUpdate, s) \<and>
                  (stage v'' = Partial p \<or> (p = Won \<and> tailStage bid s (stage v'')))"
              by blast
          qed
        next
          case False
          with sp bp have pw: "p = Won"
            and q: "quietStage bid s (stage (vs ! w)) \<or> stage (vs ! w) = Partial Won"
            by (auto simp: ended_def beyond_def quietStage_def)
          from sp pw have n: "stage (vs ! w) \<noteq> CountAudio"
            "stage (vs ! w) \<noteq> Partial AtUpdate" by auto
          from quiet_step [OF pt ut l ow q] e iw n
          have r: "t' = t" "seen v' = seen (vs ! w)" "wrote v' = wrote (vs ! w)"
            "dispatched v' = dispatched (vs ! w)" "tailStage bid s (stage v')"
            by simp_all
          show ?thesis
            unfolding lead_def
          proof (intro conjI)
            show "observes v''" using ow r fields by (simp add: observes_def)
            show "winner v''" using ww r same [OF r(1)] by (simp add: winner_def)
            show "changesOf bid t' = changesOf bid s @ wrote v''"
              using cw r same [OF r(1)] by simp
            show "dispatchedFor bid t' = dispatchedFor bid s @ dispatched v''"
              using dw r same [OF r(1)] by simp
            from kp pw r(1) have "(Won, t') = alone (Suc k) bid (AtUpdate, s)" by simp
            moreover have "tailStage bid s (stage v'')" using r fields by simp
            ultimately show "\<exists>k p. (p, t') = alone (Suc k) bid (AtUpdate, s) \<and>
                  (stage v'' = Partial p \<or> (p = Won \<and> tailStage bid s (stage v'')))"
              by blast
          qed
        qed
        have l2: "lead bid s (vs[i := v''] ! w) t'" using ahead(1) iw ld by simp
        show ?thesis unfolding sa using l1 l2 l3 by (rule raceInvI_lead)
      qed
    qed
  qed
qed


lemma raceInv_run:
  assumes "sound s" and "tracker bid s = Some b" and "status b = Pending"
    and "unitsLackingAudio bid s \<noteq> []"
  shows "raceInv bid s c \<Longrightarrow> raceInv bid s (runSchedule bid sched c)"
  by (induction sched arbitrary: c) (simp_all add: raceInv_stepAt [OF assms])

lemma raceInv_start:
  assumes "\<forall>x \<in> set bs. status x = Pending \<and> atLeastHalf (receivedCount x) (expectedCount x)"
  shows "raceInv bid s (map observing bs, s)"
  using assms
  by (intro raceInvI_fresh) (auto simp: idle_def observes_def observing_def quietStage_def)

lemma length_stepAt: "length (fst (stepAt bid i c)) = length (fst c)"
  by (simp add: stepAt_def split: prod.splits)

lemma length_runSchedule: "length (fst (runSchedule bid sched c)) = length (fst c)"
  by (induction sched arbitrary: c) (simp_all add: length_stepAt)

lemma idle_not_winner: "idle bid s v \<Longrightarrow> \<not> winner v"
  by (simp add: idle_def winner_def)

lemma race_outcome:
  assumes "sound s" and "tracker bid s = Some b" and "status b = Pending"
    and "\<forall>x \<in> set bs. status x = Pending \<and> atLeastHalf (receivedCount x) (expectedCount x)"
    and "unitsLackingAudio bid s \<noteq> []"
  shows "length (filter winner (fst (runSchedule bid sched (map observing bs, s)))) \<le> 1 \<and>
         list_all (\<lambda>v. winner v \<or> (wrote v = [] \<and> dispatched v = []))
           (fst (runSchedule bid sched (map observing bs, s))) \<and>
         (bs \<noteq> [] \<and> list_all (\<lambda>v. stage v = Finished)
                        (fst (runSchedule bid sched (map observing bs, s)))
          \<longrightarrow>
            statedRace (fst (runSchedule bid sched (map observing bs, s))) \<and>
            length (filter (\<lambda>v. wrote v = [(Pending, Partial_complete),
                                            (Partial_complete, Audio_requested)] \<and>
                                 dispatched v = map summaryId (unitsLackingAudio bid s))
                      (fst (runSchedule bid sched (map observing bs, s)))) = 1 \<and>
            snd (runSchedule bid sched (map observing bs, s))
              = snd (handlePartialCompletion bid b s) \<and>
            changesOf bid (snd (runSchedule bid sched (map observing bs, s)))
              = changesOf bid s @
                  [(Pending, Partial_complete), (Partial_complete, Audio_requested)] \<and>
            dispatchedFor bid (snd (runSchedule bid sched (map observing bs, s)))
              = dispatchedFor bid s @ map summaryId (unitsLackingAudio bid s))"
proof -
  let ?two = "[(Pending, Partial_complete), (Partial_complete, Audio_requested)]"
  let ?sent = "map summaryId (unitsLackingAudio bid s)"
  let ?all = "\<lambda>v. wrote v = ?two \<and> dispatched v = ?sent"
  obtain vs t where r: "runSchedule bid sched (map observing bs, s) = (vs, t)"
    by (cases "runSchedule bid sched (map observing bs, s)")
  have len: "length vs = length bs"
    using length_runSchedule [of bid sched "(map observing bs, s)"] r by simp
  have "raceInv bid s (vs, t)"
    using raceInv_run [OF assms(1,2,3,5) raceInv_start [OF assms(4)], of sched] r by simp
  then consider
    (fresh) "t = s"
      "\<forall>v \<in> set vs. idle bid s v \<and> (stage v = CountAudio \<or> stage v = Partial AtUpdate)"
    | (ahead) w where "w < length vs" "lead bid s (vs ! w) t"
        "\<forall>j < length vs. j \<noteq> w \<longrightarrow> idle bid s (vs ! j)"
    by (auto simp: raceInv_def)
  then have "length (filter winner vs) \<le> 1 \<and>
         list_all (\<lambda>v. winner v \<or> (wrote v = [] \<and> dispatched v = [])) vs \<and>
         (bs \<noteq> [] \<and> list_all (\<lambda>v. stage v = Finished) vs \<longrightarrow>
            statedRace vs \<and> length (filter ?all vs) = 1 \<and>
            t = snd (handlePartialCompletion bid b s) \<and>
            changesOf bid t = changesOf bid s @ ?two \<and>
            dispatchedFor bid t = dispatchedFor bid s @ ?sent)"
  proof cases
    case fresh
    then have "filter winner vs = []"
      by (auto simp: filter_empty_conv dest: idle_not_winner)
    then have a: "length (filter winner vs) \<le> 1" by simp
    have b: "list_all (\<lambda>v. winner v \<or> (wrote v = [] \<and> dispatched v = [])) vs"
      using fresh(2) by (auto simp: list_all_iff idle_def)
    have c: "\<not> (bs \<noteq> [] \<and> list_all (\<lambda>v. stage v = Finished) vs)"
    proof
      assume h: "bs \<noteq> [] \<and> list_all (\<lambda>v. stage v = Finished) vs"
      with len have m: "vs ! 0 \<in> set vs" by simp
      with fresh(2) have "stage (vs ! 0) = CountAudio \<or> stage (vs ! 0) = Partial AtUpdate"
        by blast
      moreover from h m have "stage (vs ! 0) = Finished" by (simp add: list_all_iff)
      ultimately show False by simp
    qed
    from a b c show ?thesis by blast
  next
    case ahead
    from ahead(2) obtain k p where
      kp: "(p, t) = alone (Suc k) bid (AtUpdate, s)"
      and sp: "stage (vs ! w) = Partial p \<or> (p = Won \<and> tailStage bid s (stage (vs ! w)))"
      and ww: "winner (vs ! w)"
      and cw: "changesOf bid t = changesOf bid s @ wrote (vs ! w)"
      and dw: "dispatchedFor bid t = dispatchedFor bid s @ dispatched (vs ! w)"
      by (auto simp: lead_def)
    have others: "\<forall>j < length vs. j \<noteq> w \<longrightarrow> \<not> winner (vs ! j)"
      using ahead(3) by (auto dest: idle_not_winner)
    have one: "length (filter winner vs) = 1"
      using ahead(1) ww others by (rule count_one)
    have b: "list_all (\<lambda>v. winner v \<or> (wrote v = [] \<and> dispatched v = [])) vs"
      unfolding list_all_iff
    proof
      fix v assume "v \<in> set vs"
      then obtain j where j: "j < length vs" "vs ! j = v" by (auto simp: in_set_conv_nth)
      show "winner v \<or> (wrote v = [] \<and> dispatched v = [])"
      proof (cases "j = w")
        case True
        with ww j show ?thesis by simp
      next
        case False
        with ahead(3) j have "idle bid s v" by auto
        then show ?thesis by (simp add: idle_def)
      qed
    qed
    have c: "length (filter ?all vs) = 1 \<and> t = snd (handlePartialCompletion bid b s) \<and>
             changesOf bid t = changesOf bid s @ ?two \<and>
             dispatchedFor bid t = dispatchedFor bid s @ ?sent"
      if e: "list_all (\<lambda>v. stage v = Finished) vs"
    proof -
      from e ahead(1) have "stage (vs ! w) = Finished" by (simp add: list_all_iff)
      with sp have pw: "p = Won" by auto
      from handlePartialCompletion_steps [of bid s b] obtain k' p' where
        h: "alone k' bid (AtUpdate, s) = (p', snd (handlePartialCompletion bid b s))"
        and ep: "ended p'" by blast
      have ew: "ended p" using pw by (simp add: ended_def)
      have "(p, t) = (p', snd (handlePartialCompletion bid b s))"
        using kp [symmetric] ew h ep by (rule alone_ended_unique)
      then have t: "t = snd (handlePartialCompletion bid b s)" by simp
      from handlePartialCompletion_sound [OF assms(1,2,3), of b] t
      have ch: "changesOf bid t = changesOf bid s @ ?two"
        and di: "dispatchedFor bid t = dispatchedFor bid s @ ?sent"
        by simp_all
      from ch cw di dw have aw: "?all (vs ! w)" by simp
      have "\<forall>j < length vs. j \<noteq> w \<longrightarrow> \<not> ?all (vs ! j)"
        using ahead(3) by (auto simp: idle_def)
      with ahead(1) aw have "length (filter ?all vs) = 1" by (rule count_one)
      with t ch di show ?thesis by simp
    qed
    from one have "length (filter winner vs) \<le> 1" by simp
    with one b c show ?thesis unfolding statedRace_def by blast
  qed
  then show ?thesis unfolding r fst_conv snd_conv .
qed


lemma afterFull_late: "lateStage (afterFull v)"
  by (simp add: afterFull_def)

lemma afterPartial_late: "observes v \<Longrightarrow> lateStage (afterPartial v)"
  by (simp add: afterPartial_def afterFull_def observes_def)

lemma calm_step:
  assumes p: "passed bid t" and o: "observes v"
    and q: "calmStage (stage v) \<or> stage v = Partial Won"
    and e: "stepStage bid v (stage v) t = (v', t')"
  shows "passed bid t' \<and> seen v' = seen v \<and> wrote v' = wrote v \<and>
         dispatched v' = dispatched v \<and> calmStage (stage v') \<and>
         (stage v \<noteq> CountAudio \<and> stage v \<noteq> Partial AtUpdate \<longrightarrow> lateStage (stage v')) \<and>
         dispatchedFor bid t' = dispatchedFor bid t \<and>
         (\<exists>X. changesOf bid t' = changesOf bid t @ X \<and>
               list_all (\<lambda>c. snd c = Audio_complete) X)"
proof -
  from p have f: "faults t = []" by (simp add: passed_def sound_def)
  from p obtain b' where s: "sound t" and tr: "tracker bid t = Some b'"
    and st: "status b' \<noteq> Pending"
    by (auto simp: passed_def)
  from tr have fnd: "find (\<lambda>b. batchId b = bid) (batches t) = Some b'" by (simp add: tracker_def)
  show ?thesis
  proof (cases "stage v")
    case CountAudio
    with count_step [OF s o _ e] p show ?thesis by (simp add: calmStage_def)
  next
    case (Partial ph)
    with q have "ph = AtUpdate \<or> ph = Lost \<or> ph = Won" by (auto simp: calmStage_def)
    then show ?thesis
    proof (elim disjE)
      assume "ph = AtUpdate"
      with Partial e late_step [OF s tr st] p show ?thesis
        by (auto simp: ended_def calmStage_def)
    next
      assume "ph = Lost"
      with Partial e afterPartial_late [OF o] p show ?thesis
        by (auto simp: ended_def calmStage_def)
    next
      assume "ph = Won"
      with Partial e afterPartial_late [OF o] p show ?thesis
        by (auto simp: ended_def calmStage_def)
    qed
  next
    case FullUpdate
    with e s tr st afterFull_late [of v] p show ?thesis
      by (auto simp: cas_sound calmStage_def)
  next
    case (FullRest ph)
    with q show ?thesis by (simp add: calmStage_def)
  next
    case CompleteUpdate
    with q show ?thesis by (simp add: calmStage_def)
  next
    case AudioQuery
    with e f fnd p show ?thesis
      by (auto simp: batchFindOne_def storeCall_sound calmStage_def)
  next
    case AudioTotal
    with e f p show ?thesis
      by (auto simp: summaryCountDocuments_sound calmStage_def)
  next
    case (AudioWith n)
    with e f p show ?thesis
      by (auto simp: summaryCountDocuments_sound calmStage_def split: if_splits)
  next
    case AudioUpdate
    let ?u = "\<lambda>t b. b\<lparr>status := Audio_complete, audioCompletedAt := Some t\<rparr>"
    show ?thesis
    proof (cases "status b' = Audio_complete")
      case True
      with AudioUpdate e s tr p show ?thesis
        by (auto simp: cas_sound calmStage_def)
    next
      case False
      with AudioUpdate e s tr
      have r: "v' = v\<lparr>stage := Finished\<rparr>" "t' = withUpdate bid ?u t"
        by (auto simp: cas_sound)
      have "passed bid t'"
        using r(2) s tr by (simp add: passed_def sound_withUpdate tracker_withUpdate)
      moreover have "changesOf bid t' = changesOf bid t @ [(status b', Audio_complete)]"
        using r(2) tr False by (simp add: changesOf_withUpdate)
      ultimately show ?thesis using r AudioUpdate by (simp add: calmStage_def)
    qed
  next
    case Finished
    with e p show ?thesis by (auto simp: calmStage_def)
  qed
qed

lemma safeInvI_pending:
  "sound t \<Longrightarrow> tracker bid t = Some b' \<Longrightarrow> status b' = Pending \<Longrightarrow>
   \<forall>v \<in> set vs. calm v \<and> wrote v = [] \<and> (stage v = CountAudio \<or> stage v = Partial AtUpdate) \<Longrightarrow>
   safeInv bid (vs, t)"
  by (simp add: safeInv_def)

lemma safeInvI_passed:
  "passed bid t \<Longrightarrow> w < length vs \<Longrightarrow> inFront (vs ! w) \<Longrightarrow>
   \<forall>j < length vs. j \<noteq> w \<longrightarrow> calm (vs ! j) \<Longrightarrow>
   safeInv bid (vs, t)"
  unfolding safeInv_def passed_def prod.case by (auto simp del: lateStage.simps)

lemma safeInv_stepAt:
  assumes inv: "safeInv bid c"
  shows "safeInv bid (stepAt bid i c)"
proof -
  obtain vs t where c: "c = (vs, t)" by (cases c)
  show ?thesis
  proof (cases "i < length vs")
    case False
    with inv c show ?thesis by (simp add: stepAt_def)
  next
    case True
    obtain v' t' where e: "stepStage bid (vs ! i) (stage (vs ! i)) t = (v', t')"
      by (cases "stepStage bid (vs ! i) (stage (vs ! i)) t")
    define v'' where
      "v'' = v'\<lparr>wrote := wrote v' @ drop (length (changesOf bid t)) (changesOf bid t'),
                dispatched := dispatched v' @
                  drop (length (dispatchedFor bid t)) (dispatchedFor bid t')\<rparr>"
    have sa: "stepAt bid i c = (vs[i := v''], t')"
      unfolding c v''_def using True e by (rule stepAt_eq)
    have fields: "seen v'' = seen v'" "stage v'' = stage v'" by (simp_all add: v''_def)
    have wr: "wrote v'' = wrote v' @ drop (length (changesOf bid t)) (changesOf bid t')"
      and dr: "dispatched v'' = dispatched v' @
                  drop (length (dispatchedFor bid t)) (dispatchedFor bid t')"
      by (simp_all add: v''_def)
    from inv c obtain b' where s: "sound t" and tr: "tracker bid t = Some b'"
      by (auto simp: safeInv_def)
    show ?thesis
    proof (cases "status b' = Pending")
      case pend: True
      with inv c tr have fr: "\<forall>v \<in> set vs. calm v \<and> wrote v = [] \<and>
                   (stage v = CountAudio \<or> stage v = Partial AtUpdate)"
        by (simp add: safeInv_def)
      with True have cv: "calm (vs ! i)" and w0: "wrote (vs ! i) = []"
        and fs: "stage (vs ! i) = CountAudio \<or> stage (vs ! i) = Partial AtUpdate"
        by simp_all
      from cv have o: "observes (vs ! i)" and d0: "dispatched (vs ! i) = []"
        by (simp_all add: calm_def)
      from fs show ?thesis
      proof
        assume ca: "stage (vs ! i) = CountAudio"
        from count_step [OF s o ca e]
        have r: "t' = t" "seen v' = seen (vs ! i)" "wrote v' = wrote (vs ! i)"
          "dispatched v' = dispatched (vs ! i)" "stage v' = Partial AtUpdate"
          by simp_all
        have "calm v''" "wrote v'' = []" "stage v'' = Partial AtUpdate"
          using r o w0 d0 fields wr dr
          by (simp_all add: calm_def observes_def calmStage_def)
        then have "\<forall>v \<in> set (vs[i := v'']). calm v \<and> wrote v = [] \<and>
                   (stage v = CountAudio \<or> stage v = Partial AtUpdate)"
          using fr set_update_subset_insert [of vs i v''] by auto
        with s tr pend show ?thesis unfolding sa r(1) by (rule safeInvI_pending)
      next
        assume pu: "stage (vs ! i) = Partial AtUpdate"
        let ?s1 = "withUpdate bid
                     (\<lambda>t b. b\<lparr>status := Partial_complete, partialCompletedAt := Some t\<rparr>) t"
        from first_stage_step [OF s tr pend pu] e
        have r: "v' = (vs ! i)\<lparr>stage := Partial AtStatusQuery\<rparr>" "t' = ?s1" by simp_all
        have ch: "changesOf bid ?s1 = changesOf bid t @ [(Pending, Partial_complete)]"
          using tr pend by (simp add: changesOf_withUpdate)
        have pt: "passed bid t'"
          using r(2) s tr by (simp add: passed_def sound_withUpdate tracker_withUpdate)
        have "inFront v''"
          using o r ch fields wr by (simp add: inFront_def observes_def winner_def beyond_def)
        then have l2: "inFront (vs[i := v''] ! i)" using True by simp
        have l1: "i < length (vs[i := v''])" using True by simp
        have l3: "\<forall>j < length (vs[i := v'']). j \<noteq> i \<longrightarrow> calm (vs[i := v''] ! j)"
          using fr by simp
        show ?thesis unfolding sa using pt l1 l2 l3 by (rule safeInvI_passed)
      qed
    next
      case False
      with s tr have pt: "passed bid t" by (auto simp: passed_def)
      from False inv c tr obtain w where w: "w < length vs" "inFront (vs ! w)"
        "\<forall>j < length vs. j \<noteq> w \<longrightarrow> calm (vs ! j)"
        by (auto simp: safeInv_def)
      show ?thesis
      proof (cases "i = w")
        case nw: False
        with True w(3) have cv: "calm (vs ! i)" by simp
        then have o: "observes (vs ! i)" and d0: "dispatched (vs ! i) = []"
          and a0: "list_all (\<lambda>c. snd c = Audio_complete) (wrote (vs ! i))"
          and q: "calmStage (stage (vs ! i))"
          by (simp_all add: calm_def)
        from q have "calmStage (stage (vs ! i)) \<or> stage (vs ! i) = Partial Won" ..
        from calm_step [OF pt o this e] obtain X where
          r: "passed bid t'" "seen v' = seen (vs ! i)" "wrote v' = wrote (vs ! i)"
          "dispatched v' = dispatched (vs ! i)" "calmStage (stage v')"
          "dispatchedFor bid t' = dispatchedFor bid t"
          and x: "changesOf bid t' = changesOf bid t @ X"
            "list_all (\<lambda>c. snd c = Audio_complete) X"
          by auto
        have cv': "calm v''"
          using r x o d0 a0 fields wr dr by (simp add: calm_def observes_def)
        have l1: "w < length (vs[i := v''])" using w(1) by simp
        have l2: "inFront (vs[i := v''] ! w)" using w(2) nw by simp
        have l3: "\<forall>j < length (vs[i := v'']). j \<noteq> w \<longrightarrow> calm (vs[i := v''] ! j)"
          using w(3) cv' True by (auto simp: nth_list_update)
        show ?thesis unfolding sa using r(1) l1 l2 l3 by (rule safeInvI_passed)
      next
        case iw: True
        from w(2) have ow: "observes (vs ! w)" and ww: "winner (vs ! w)"
          and sw: "(\<exists>p. stage (vs ! w) = Partial p \<and> beyond p) \<or> lateStage (stage (vs ! w))"
          by (simp_all add: inFront_def)
        have l1: "w < length (vs[i := v''])" using w(1) by simp
        have l3: "\<forall>j < length (vs[i := v'']). j \<noteq> w \<longrightarrow> calm (vs[i := v''] ! j)"
          using w(3) iw by simp
        have "passed bid t' \<and> inFront v''"
        proof (cases "\<exists>p. stage (vs ! w) = Partial p \<and> \<not> ended p \<and> beyond p")
          case True
          then obtain p where p: "stage (vs ! w) = Partial p" "\<not> ended p" "beyond p" by blast
          from inside_step [of "vs ! w" p bid t] p e iw
          have r: "v' = (vs ! w)\<lparr>stage := Partial (fst (stepProc bid p t))\<rparr>"
            "t' = snd (stepProc bid p t)" by simp_all
          from passed_step [OF pt p(3)] r(2)
          have "passed bid t'" "beyond (fst (stepProc bid p t))" by simp_all
          moreover have "winner v''" using ww r(1) wr by (simp add: winner_def)
          moreover have "observes v''" using ow r(1) fields by (simp add: observes_def)
          moreover have "stage v'' = Partial (fst (stepProc bid p t))" using r fields by simp
          ultimately show ?thesis by (simp add: inFront_def)
        next
          case False
          with sw have q: "calmStage (stage (vs ! w)) \<or> stage (vs ! w) = Partial Won"
            and n: "stage (vs ! w) \<noteq> CountAudio" "stage (vs ! w) \<noteq> Partial AtUpdate"
            by (auto simp: ended_def beyond_def calmStage_def)
          from calm_step [OF pt ow q] e iw n
          have r: "passed bid t'" "seen v' = seen (vs ! w)" "wrote v' = wrote (vs ! w)"
            "lateStage (stage v')"
            by simp_all
          have "winner v''" using ww r wr by (simp add: winner_def)
          moreover have "observes v''" using ow r fields by (simp add: observes_def)
          moreover have "lateStage (stage v'')" using r fields by simp
          ultimately show ?thesis using r(1) by (simp add: inFront_def)
        qed
        then have pt': "passed bid t'" and l2: "inFront (vs[i := v''] ! w)"
          using w(1) iw by simp_all
        show ?thesis unfolding sa using pt' l1 l2 l3 by (rule safeInvI_passed)
      qed
    qed
  qed
qed

lemma safeInv_run: "safeInv bid c \<Longrightarrow> safeInv bid (runSchedule bid sched c)"
  by (induction sched arbitrary: c) (simp_all add: safeInv_stepAt)

lemma safeInv_start:
  assumes "sound s" and "tracker bid s = Some b" and "status b = Pending"
    and "\<forall>x \<in> set bs. status x = Pending \<and> atLeastHalf (receivedCount x) (expectedCount x)"
  shows "safeInv bid (map observing bs, s)"
  using assms
  by (intro safeInvI_pending [of s bid b])
     (auto simp: calm_def observes_def observing_def calmStage_def)

lemma calm_not_winner: "calm v \<Longrightarrow> \<not> winner v"
  by (auto simp: calm_def winner_def list_all_iff)

lemma safeInv_outcome:
  assumes "safeInv bid (vs, t)"
  shows "length (filter winner vs) \<le> 1 \<and>
         list_all (\<lambda>v. winner v \<or>
                       (dispatched v = [] \<and> list_all (\<lambda>c. snd c = Audio_complete) (wrote v))) vs \<and>
         (vs \<noteq> [] \<and> list_all (\<lambda>v. stage v = Finished) vs \<longrightarrow>
            length (filter winner vs) = 1)"
proof -
  from assms obtain b' where tr: "tracker bid t = Some b'" by (auto simp: safeInv_def)
  show ?thesis
  proof (cases "status b' = Pending")
    case True
    with assms tr have fr: "\<forall>v \<in> set vs. calm v"
      and fs: "\<forall>v \<in> set vs. stage v = CountAudio \<or> stage v = Partial AtUpdate"
      by (simp_all add: safeInv_def)
    then have "filter winner vs = []"
      by (auto simp: filter_empty_conv dest: calm_not_winner)
    moreover from fr have "list_all (\<lambda>v. winner v \<or>
           (dispatched v = [] \<and> list_all (\<lambda>c. snd c = Audio_complete) (wrote v))) vs"
      by (simp add: list_all_iff calm_def)
    moreover have "\<not> (vs \<noteq> [] \<and> list_all (\<lambda>v. stage v = Finished) vs)"
    proof
      assume h: "vs \<noteq> [] \<and> list_all (\<lambda>v. stage v = Finished) vs"
      then have m: "vs ! 0 \<in> set vs" by simp
      with fs have "stage (vs ! 0) = CountAudio \<or> stage (vs ! 0) = Partial AtUpdate" by blast
      moreover from h m have "stage (vs ! 0) = Finished" by (simp add: list_all_iff)
      ultimately show False by simp
    qed
    ultimately show ?thesis by simp
  next
    case False
    with assms tr obtain w where w: "w < length vs" "inFront (vs ! w)"
        "\<forall>j < length vs. j \<noteq> w \<longrightarrow> calm (vs ! j)"
      by (auto simp: safeInv_def)
    from w(2) have ww: "winner (vs ! w)" by (simp add: inFront_def)
    have others: "\<forall>j < length vs. j \<noteq> w \<longrightarrow> \<not> winner (vs ! j)"
      using w(3) by (auto dest: calm_not_winner)
    have one: "length (filter winner vs) = 1"
      using w(1) ww others by (rule count_one)
    have "list_all (\<lambda>v. winner v \<or>
           (dispatched v = [] \<and> list_all (\<lambda>c. snd c = Audio_complete) (wrote v))) vs"
      unfolding list_all_iff [of _ vs]
    proof
      fix v assume "v \<in> set vs"
      then obtain j where j: "j < length vs" "vs ! j = v" by (auto simp: in_set_conv_nth)
      show "winner v \<or> (dispatched v = [] \<and> list_all (\<lambda>c. snd c = Audio_complete) (wrote v))"
      proof (cases "j = w")
        case True
        with ww j show ?thesis by simp
      next
        case False
        with w(3) j have "calm v" by auto
        then show ?thesis by (simp add: calm_def)
      qed
    qed
    with one show ?thesis by simp
  qed
qed

lemmas race_defs = stepAt_def observing_def afterCount_def afterPartial_def afterFull_def
  ended_def changesOf_def winner_def statedRace_def engine_defs

lemma one_invocation_agrees:
  "snd (runSchedule ''b1'' [0, 0, 0, 0, 0, 0, 0, 0, 0, 0, 0, 0]
          ([observing (mkBatch ''b1'' 4 2 Pending 1800000)],
           mkSys [mkBatch ''b1'' 4 2 Pending 1800000]
             [mkSummary 0 ''u1'' ''b1'' True, mkSummary 1 ''u2'' ''b1'' False] 5 []))
     = snd (checkBatchCompletion ''b1''
              (mkSys [mkBatch ''b1'' 4 1 Pending 1800000]
                 [mkSummary 0 ''u1'' ''b1'' True, mkSummary 1 ''u2'' ''b1'' False] 5 []))"
  "snd (runSchedule ''b1'' [0, 0, 0, 0, 0, 0, 0, 0, 0, 0, 0, 0]
          ([observing (mkBatch ''b1'' 2 2 Pending 1800000)],
           mkSys [mkBatch ''b1'' 2 2 Pending 1800000]
             [mkSummary 0 ''u1'' ''b1'' True, mkSummary 1 ''u2'' ''b1'' True] 5 [False, True]))
     = snd (checkBatchCompletion ''b1''
              (mkSys [mkBatch ''b1'' 2 1 Pending 1800000]
                 [mkSummary 0 ''u1'' ''b1'' True, mkSummary 1 ''u2'' ''b1'' True] 5
                 [False, False, True]))"
  by (simp_all add: race_defs)

text \<open>
  C3. Any number of invocations of the evaluator for a batch that is \<open>pending\<close>, each
  having read the tracker as \<open>pending\<close> with at least half of the expected units
  received, interleaved in any order at their awaits, with the store working. At any
  moment at most one invocation has made the change from \<open>pending\<close> to
  \<open>partial_complete\<close>, and exactly one once all have finished; every other invocation
  has sent nothing to the audio worker, and the only change of status it can have made
  is to \<open>audio_complete\<close>. When at least one
  unit of the batch has no audio, every other invocation has changed no status at all,
  and when all have finished exactly one has made the change to \<open>partial_complete\<close>; it
  has also made the change to \<open>audio_requested\<close> and sent the units without audio, once
  each, and the state is the one \<open>handlePartialCompletion\<close> on its own leaves.
\<close>

theorem one_winner_one_dispatch:
  assumes "sound s" and "tracker bid s = Some b" and "status b = Pending"
    and "\<forall>x \<in> set bs. status x = Pending \<and> atLeastHalf (receivedCount x) (expectedCount x)"
  shows "length (filter winner (fst (runSchedule bid sched (map observing bs, s)))) \<le> 1 \<and>
         list_all (\<lambda>v. winner v \<or>
                       (dispatched v = [] \<and> list_all (\<lambda>c. snd c = Audio_complete) (wrote v)))
           (fst (runSchedule bid sched (map observing bs, s))) \<and>
         (bs \<noteq> [] \<and> list_all (\<lambda>v. stage v = Finished)
                        (fst (runSchedule bid sched (map observing bs, s)))
          \<longrightarrow> length (filter winner (fst (runSchedule bid sched (map observing bs, s)))) = 1) \<and>
         (unitsLackingAudio bid s \<noteq> [] \<longrightarrow>
            list_all (\<lambda>v. winner v \<or> (wrote v = [] \<and> dispatched v = []))
              (fst (runSchedule bid sched (map observing bs, s))) \<and>
            (bs \<noteq> [] \<and> list_all (\<lambda>v. stage v = Finished)
                           (fst (runSchedule bid sched (map observing bs, s)))
             \<longrightarrow>
               statedRace (fst (runSchedule bid sched (map observing bs, s))) \<and>
               length (filter (\<lambda>v. wrote v = [(Pending, Partial_complete),
                                               (Partial_complete, Audio_requested)] \<and>
                                    dispatched v = map summaryId (unitsLackingAudio bid s))
                         (fst (runSchedule bid sched (map observing bs, s)))) = 1 \<and>
               snd (runSchedule bid sched (map observing bs, s))
                 = snd (handlePartialCompletion bid b s) \<and>
               changesOf bid (snd (runSchedule bid sched (map observing bs, s)))
                 = changesOf bid s @
                     [(Pending, Partial_complete), (Partial_complete, Audio_requested)] \<and>
               dispatchedFor bid (snd (runSchedule bid sched (map observing bs, s)))
                 = dispatchedFor bid s @ map summaryId (unitsLackingAudio bid s)))"
proof -
  obtain vs t where r: "runSchedule bid sched (map observing bs, s) = (vs, t)"
    by (cases "runSchedule bid sched (map observing bs, s)")
  have "safeInv bid (vs, t)"
    using safeInv_run [OF safeInv_start [OF assms], of sched] r by simp
  then have a: "length (filter winner vs) \<le> 1 \<and>
         list_all (\<lambda>v. winner v \<or>
                       (dispatched v = [] \<and> list_all (\<lambda>c. snd c = Audio_complete) (wrote v))) vs \<and>
         (vs \<noteq> [] \<and> list_all (\<lambda>v. stage v = Finished) vs \<longrightarrow>
            length (filter winner vs) = 1)"
    by (rule safeInv_outcome)
  have len: "length vs = length bs"
    using length_runSchedule [of bid sched "(map observing bs, s)"] r by simp
  then have ne: "bs \<noteq> [] \<longrightarrow> vs \<noteq> []" by auto
  have b: "list_all (\<lambda>v. winner v \<or> (wrote v = [] \<and> dispatched v = [])) vs \<and>
            (bs \<noteq> [] \<and> list_all (\<lambda>v. stage v = Finished) vs \<longrightarrow>
               statedRace vs \<and>
               length (filter (\<lambda>v. wrote v = [(Pending, Partial_complete),
                                               (Partial_complete, Audio_requested)] \<and>
                                    dispatched v = map summaryId (unitsLackingAudio bid s))
                         vs) = 1 \<and>
               t = snd (handlePartialCompletion bid b s) \<and>
               changesOf bid t = changesOf bid s @
                     [(Pending, Partial_complete), (Partial_complete, Audio_requested)] \<and>
               dispatchedFor bid t
                 = dispatchedFor bid s @ map summaryId (unitsLackingAudio bid s))"
    if "unitsLackingAudio bid s \<noteq> []"
    using race_outcome [OF assms that, of sched] unfolding r fst_conv snd_conv by blast
  from a b ne show ?thesis unfolding r fst_conv snd_conv by blast
qed

theorem one_winner_one_dispatch_witness:
  "sound (mkSys [mkBatch ''b1'' 4 4 Pending 1800000]
            [mkSummary 0 ''u1'' ''b1'' True, mkSummary 1 ''u2'' ''b1'' True,
             mkSummary 2 ''u3'' ''b1'' True, mkSummary 3 ''u4'' ''b1'' False] 5 []) \<and>
   tracker ''b1'' (mkSys [mkBatch ''b1'' 4 4 Pending 1800000]
            [mkSummary 0 ''u1'' ''b1'' True, mkSummary 1 ''u2'' ''b1'' True,
             mkSummary 2 ''u3'' ''b1'' True, mkSummary 3 ''u4'' ''b1'' False] 5 [])
     = Some (mkBatch ''b1'' 4 4 Pending 1800000) \<and>
   map summaryId (unitsLackingAudio ''b1'' (mkSys [mkBatch ''b1'' 4 4 Pending 1800000]
            [mkSummary 0 ''u1'' ''b1'' True, mkSummary 1 ''u2'' ''b1'' True,
             mkSummary 2 ''u3'' ''b1'' True, mkSummary 3 ''u4'' ''b1'' False] 5 [])) = [3] \<and>
   map stage (fst (runSchedule ''b1''
          [1, 0, 1, 0, 2, 2, 1, 1, 2, 1, 1, 0, 1, 1, 2, 1, 1, 1, 0, 0, 0]
          (map observing [mkBatch ''b1'' 4 2 Pending 1800000,
                          mkBatch ''b1'' 4 3 Pending 1800000,
                          mkBatch ''b1'' 4 4 Pending 1800000],
           mkSys [mkBatch ''b1'' 4 4 Pending 1800000]
            [mkSummary 0 ''u1'' ''b1'' True, mkSummary 1 ''u2'' ''b1'' True,
             mkSummary 2 ''u3'' ''b1'' True, mkSummary 3 ''u4'' ''b1'' False] 5 [])))
     = [Finished, Finished, Finished] \<and>
   map wrote (fst (runSchedule ''b1''
          [1, 0, 1, 0, 2, 2, 1, 1, 2, 1, 1, 0, 1, 1, 2, 1, 1, 1, 0, 0, 0]
          (map observing [mkBatch ''b1'' 4 2 Pending 1800000,
                          mkBatch ''b1'' 4 3 Pending 1800000,
                          mkBatch ''b1'' 4 4 Pending 1800000],
           mkSys [mkBatch ''b1'' 4 4 Pending 1800000]
            [mkSummary 0 ''u1'' ''b1'' True, mkSummary 1 ''u2'' ''b1'' True,
             mkSummary 2 ''u3'' ''b1'' True, mkSummary 3 ''u4'' ''b1'' False] 5 [])))
     = [[], [(Pending, Partial_complete), (Partial_complete, Audio_requested)], []] \<and>
   map dispatched (fst (runSchedule ''b1''
          [1, 0, 1, 0, 2, 2, 1, 1, 2, 1, 1, 0, 1, 1, 2, 1, 1, 1, 0, 0, 0]
          (map observing [mkBatch ''b1'' 4 2 Pending 1800000,
                          mkBatch ''b1'' 4 3 Pending 1800000,
                          mkBatch ''b1'' 4 4 Pending 1800000],
           mkSys [mkBatch ''b1'' 4 4 Pending 1800000]
            [mkSummary 0 ''u1'' ''b1'' True, mkSummary 1 ''u2'' ''b1'' True,
             mkSummary 2 ''u3'' ''b1'' True, mkSummary 3 ''u4'' ''b1'' False] 5 [])))
     = [[], [3], []] \<and>
   statedRace (fst (runSchedule ''b1''
          [1, 0, 1, 0, 2, 2, 1, 1, 2, 1, 1, 0, 1, 1, 2, 1, 1, 1, 0, 0, 0]
          (map observing [mkBatch ''b1'' 4 2 Pending 1800000,
                          mkBatch ''b1'' 4 3 Pending 1800000,
                          mkBatch ''b1'' 4 4 Pending 1800000],
           mkSys [mkBatch ''b1'' 4 4 Pending 1800000]
            [mkSummary 0 ''u1'' ''b1'' True, mkSummary 1 ''u2'' ''b1'' True,
             mkSummary 2 ''u3'' ''b1'' True, mkSummary 3 ''u4'' ''b1'' False] 5 []))) \<and>
   snd (runSchedule ''b1''
          [1, 0, 1, 0, 2, 2, 1, 1, 2, 1, 1, 0, 1, 1, 2, 1, 1, 1, 0, 0, 0]
          (map observing [mkBatch ''b1'' 4 2 Pending 1800000,
                          mkBatch ''b1'' 4 3 Pending 1800000,
                          mkBatch ''b1'' 4 4 Pending 1800000],
           mkSys [mkBatch ''b1'' 4 4 Pending 1800000]
            [mkSummary 0 ''u1'' ''b1'' True, mkSummary 1 ''u2'' ''b1'' True,
             mkSummary 2 ''u3'' ''b1'' True, mkSummary 3 ''u4'' ''b1'' False] 5 []))
     = snd (handlePartialCompletion ''b1'' (mkBatch ''b1'' 4 4 Pending 1800000)
              (mkSys [mkBatch ''b1'' 4 4 Pending 1800000]
                [mkSummary 0 ''u1'' ''b1'' True, mkSummary 1 ''u2'' ''b1'' True,
                 mkSummary 2 ''u3'' ''b1'' True, mkSummary 3 ''u4'' ''b1'' False] 5 [])) \<and>
   changesOf ''b1'' (snd (runSchedule ''b1''
          [1, 0, 1, 0, 2, 2, 1, 1, 2, 1, 1, 0, 1, 1, 2, 1, 1, 1, 0, 0, 0]
          (map observing [mkBatch ''b1'' 4 2 Pending 1800000,
                          mkBatch ''b1'' 4 3 Pending 1800000,
                          mkBatch ''b1'' 4 4 Pending 1800000],
           mkSys [mkBatch ''b1'' 4 4 Pending 1800000]
            [mkSummary 0 ''u1'' ''b1'' True, mkSummary 1 ''u2'' ''b1'' True,
             mkSummary 2 ''u3'' ''b1'' True, mkSummary 3 ''u4'' ''b1'' False] 5 [])))
     = [(Pending, Partial_complete), (Partial_complete, Audio_requested)] \<and>
   dispatchedFor ''b1'' (snd (runSchedule ''b1''
          [1, 0, 1, 0, 2, 2, 1, 1, 2, 1, 1, 0, 1, 1, 2, 1, 1, 1, 0, 0, 0]
          (map observing [mkBatch ''b1'' 4 2 Pending 1800000,
                          mkBatch ''b1'' 4 3 Pending 1800000,
                          mkBatch ''b1'' 4 4 Pending 1800000],
           mkSys [mkBatch ''b1'' 4 4 Pending 1800000]
            [mkSummary 0 ''u1'' ''b1'' True, mkSummary 1 ''u2'' ''b1'' True,
             mkSummary 2 ''u3'' ''b1'' True, mkSummary 3 ''u4'' ''b1'' False] 5 [])))
     = [3]"
proof -
  let ?s = "mkSys [mkBatch ''b1'' 4 4 Pending 1800000]
            [mkSummary 0 ''u1'' ''b1'' True, mkSummary 1 ''u2'' ''b1'' True,
             mkSummary 2 ''u3'' ''b1'' True, mkSummary 3 ''u4'' ''b1'' False] 5 []"
  let ?bs = "[mkBatch ''b1'' 4 2 Pending 1800000, mkBatch ''b1'' 4 3 Pending 1800000,
              mkBatch ''b1'' 4 4 Pending 1800000]"
  let ?sched = "[1, 0, 1, 0, 2, 2, 1, 1, 2, 1, 1, 0, 1, 1, 2, 1, 1, 1, 0, 0, 0] :: nat list"
  have a: "sound ?s" by (simp add: sound_def distinctIds_def mkSys_def mkBatch_def)
  have b: "tracker ''b1'' ?s = Some (mkBatch ''b1'' 4 4 Pending 1800000)"
    by (simp add: tracker_def mkSys_def mkBatch_def)
  have c: "status (mkBatch ''b1'' 4 4 Pending 1800000) = Pending" by (simp add: mkBatch_def)
  have d: "\<forall>x \<in> set ?bs. status x = Pending \<and> atLeastHalf (receivedCount x) (expectedCount x)"
    by (simp add: mkBatch_def atLeastHalf_def)
  have u: "dispatchedFor ''b1'' ?s = []" "changesOf ''b1'' ?s = []"
    "map summaryId (unitsLackingAudio ''b1'' ?s) = [3]"
    by (simp_all add: dispatchedFor_def changesOf_def unitsLackingAudio_def mkSys_def
        mkSummary_def)
  from u(3) have l: "unitsLackingAudio ''b1'' ?s \<noteq> []" by auto
  define R where "R = runSchedule ''b1'' ?sched (map observing ?bs, ?s)"
  have p: "map stage (fst R) = [Finished, Finished, Finished]"
    "map wrote (fst R) = [[], [(Pending, Partial_complete), (Partial_complete, Audio_requested)], []]"
    "map dispatched (fst R) = [[], [3], []]"
    unfolding R_def by (simp_all add: race_defs)
  have "list_all (\<lambda>v. stage v = Finished) (fst R)"
    unfolding list_all_iff
  proof
    fix v assume "v \<in> set (fst R)"
    then have "stage v \<in> set (map stage (fst R))" by simp
    with p(1) show "stage v = Finished" by simp
  qed
  then have e: "?bs \<noteq> [] \<and> list_all (\<lambda>v. stage v = Finished) (fst R)" by simp
  from one_winner_one_dispatch [OF a b c d, of ?sched, folded R_def] l e
  have "statedRace (fst R)"
    and "snd R = snd (handlePartialCompletion ''b1'' (mkBatch ''b1'' 4 4 Pending 1800000) ?s)"
    and "changesOf ''b1'' (snd R) = changesOf ''b1'' ?s @
                  [(Pending, Partial_complete), (Partial_complete, Audio_requested)]"
    and "dispatchedFor ''b1'' (snd R) = dispatchedFor ''b1'' ?s @
                  map summaryId (unitsLackingAudio ''b1'' ?s)"
    by blast+
  with p u a b show ?thesis unfolding R_def [symmetric] by simp
qed

text \<open>
  C3, as stated, for any batch: the invocations that lose the race change no status.
  Two invocations for a batch of four whose three units all have audio already, one
  having read a count of two and the other a count of three: the first makes the
  conditional update; the second loses it, goes on to its last check, finds that every
  unit has audio and marks the batch \<open>audio_complete\<close>, before the first has done
  anything else. The first then writes \<open>audio_requested\<close> over it, and \<open>audio_complete\<close>
  again in its own last check.
\<close>

theorem losing_invocation_writes_counterexample:
  "sound (mkSys [mkBatch ''b1'' 4 3 Pending 1800000]
            [mkSummary 0 ''u1'' ''b1'' True, mkSummary 1 ''u2'' ''b1'' True,
             mkSummary 2 ''u3'' ''b1'' True] 5 []) \<and>
   tracker ''b1'' (mkSys [mkBatch ''b1'' 4 3 Pending 1800000]
            [mkSummary 0 ''u1'' ''b1'' True, mkSummary 1 ''u2'' ''b1'' True,
             mkSummary 2 ''u3'' ''b1'' True] 5 [])
     = Some (mkBatch ''b1'' 4 3 Pending 1800000) \<and>
   atLeastHalf 2 4 \<and> atLeastHalf 3 4 \<and>
   \<not> statedRace (fst (runSchedule ''b1''
          [0, 0, 1, 1, 1, 1, 1, 1, 1, 0, 0, 0, 0, 0, 0, 0, 0, 0]
          (map observing [mkBatch ''b1'' 4 2 Pending 1800000,
                          mkBatch ''b1'' 4 3 Pending 1800000],
           mkSys [mkBatch ''b1'' 4 3 Pending 1800000]
            [mkSummary 0 ''u1'' ''b1'' True, mkSummary 1 ''u2'' ''b1'' True,
             mkSummary 2 ''u3'' ''b1'' True] 5 []))) \<and>
   map stage (fst (runSchedule ''b1''
          [0, 0, 1, 1, 1, 1, 1, 1, 1, 0, 0, 0, 0, 0, 0, 0, 0, 0]
          (map observing [mkBatch ''b1'' 4 2 Pending 1800000,
                          mkBatch ''b1'' 4 3 Pending 1800000],
           mkSys [mkBatch ''b1'' 4 3 Pending 1800000]
            [mkSummary 0 ''u1'' ''b1'' True, mkSummary 1 ''u2'' ''b1'' True,
             mkSummary 2 ''u3'' ''b1'' True] 5 [])))
     = [Finished, Finished] \<and>
   map wrote (fst (runSchedule ''b1''
          [0, 0, 1, 1, 1, 1, 1, 1, 1, 0, 0, 0, 0, 0, 0, 0, 0, 0]
          (map observing [mkBatch ''b1'' 4 2 Pending 1800000,
                          mkBatch ''b1'' 4 3 Pending 1800000],
           mkSys [mkBatch ''b1'' 4 3 Pending 1800000]
            [mkSummary 0 ''u1'' ''b1'' True, mkSummary 1 ''u2'' ''b1'' True,
             mkSummary 2 ''u3'' ''b1'' True] 5 [])))
     = [[(Pending, Partial_complete), (Audio_complete, Audio_requested),
         (Audio_requested, Audio_complete)],
        [(Partial_complete, Audio_complete)]] \<and>
   map wrote (fst (runSchedule ''b1''
          [0, 0, 1, 1, 1, 1, 1, 1, 1]
          (map observing [mkBatch ''b1'' 4 2 Pending 1800000,
                          mkBatch ''b1'' 4 3 Pending 1800000],
           mkSys [mkBatch ''b1'' 4 3 Pending 1800000]
            [mkSummary 0 ''u1'' ''b1'' True, mkSummary 1 ''u2'' ''b1'' True,
             mkSummary 2 ''u3'' ''b1'' True] 5 [])))
     = [[(Pending, Partial_complete)], [(Partial_complete, Audio_complete)]]"
  by (simp add: race_defs sound_def distinctIds_def)

section \<open>The changes of status of an execution\<close>

lemma codeWrite_change:
  assumes "codeWrite P u" and "P b" and "status (u t b) \<noteq> status b"
  shows "permittedChange (status b) (status (u t b))"
  using assms by (cases rule: codeWrite.cases) (auto simp: permittedChange_def)

lemma atomic_changes:
  assumes "atomic s s'"
  shows "\<exists>ext. transitions s' = transitions s @ ext \<and>
               (\<forall>t \<in> set ext. permittedChange (fst (snd t)) (snd (snd t)))"
  using assms
proof cases
  case (onTracker P u)
  show ?thesis
  proof (cases "find P (batches (consumed s))")
    case None
    with onTracker show ?thesis
      by (simp add: batchFindOneAndUpdate_def storeCall_eq consumed_def)
  next
    case (Some b)
    then have "P b" by (auto simp: find_Some_iff)
    from codeWrite_change [OF onTracker(2) this, of "now (consumed s)"] Some onTracker(1)
    show ?thesis
      by (simp add: batchFindOneAndUpdate_def storeCall_eq consumed_def)
  qed
next
  case (created b)
  then show ?thesis by simp
next
  case (deleted P)
  then show ?thesis by simp
next
  case elsewhere
  then show ?thesis by simp
qed

lemma execution_changes:
  assumes "execution s s'"
  shows "\<exists>ext. transitions s' = transitions s @ ext \<and>
               (\<forall>t \<in> set ext. permittedChange (fst (snd t)) (snd (snd t)))"
  using assms
proof induction
  case (start s)
  show ?case by simp
next
  case (step s t u)
  then obtain e1 where e1: "transitions t = transitions s @ e1"
    "\<forall>x \<in> set e1. permittedChange (fst (snd x)) (snd (snd x))" by blast
  from atomic_changes [OF step(2)] obtain e2 where e2: "transitions u = transitions t @ e2"
    "\<forall>x \<in> set e2. permittedChange (fst (snd x)) (snd (snd x))" by blast
  have "transitions u = transitions s @ (e1 @ e2)" using e1 e2 by simp
  moreover have "\<forall>x \<in> set (e1 @ e2). permittedChange (fst (snd x)) (snd (snd x))"
    using e1 e2 by auto
  ultimately show ?case by blast
qed

lemma execution_trans:
  assumes "execution s t" and "execution t u"
  shows "execution s u"
  using assms(2,1) by induction (auto intro: execution.intros)

lemma execution_atomic: "atomic s t \<Longrightarrow> execution s t"
  by (blast intro: execution.intros)

lemma execution_frame:
  "batches s' = batches s \<Longrightarrow> transitions s' = transitions s \<Longrightarrow> execution s s'"
  by (blast intro: execution_atomic atomic.intros)

lemma execution_reflp: "reflp execution"
  by (rule reflpI) (rule execution.start)

lemma execution_transp: "transp execution"
  by (rule transpI) (rule execution_trans)

lemma execution_consumed: "execution s (consumed s)"
  by (rule execution_frame) (simp_all add: consumed_def)

lemmas exe_ret = pres_ret [OF execution_reflp]
lemmas exe_throw = pres_throw [OF execution_reflp]
lemmas exe_logOnly = pres_logOnly [OF execution_reflp]
lemmas exe_andThen = pres_andThen [OF execution_transp]
lemmas exe_tryCatch = pres_tryCatch [OF execution_transp]
lemmas exe_forEach = pres_forEach [OF execution_reflp execution_transp]
lemmas exe_readClock = pres_readClock [OF execution_reflp]

lemma exe_elsewhere:
  "(\<And>s. batches (snd (f s)) = batches s \<and> transitions (snd (f s)) = transitions s) \<Longrightarrow>
   pres execution (storeCall f)"
  by (rule pres_storeCall [OF execution_transp execution_consumed]) (simp add: execution_frame)

lemma exe_batchFindOne: "pres execution (batchFindOne P)"
  unfolding batchFindOne_def by (rule exe_elsewhere) simp

lemma exe_batchFind: "pres execution (batchFind P)"
  unfolding batchFind_def by (rule exe_elsewhere) simp

lemma exe_summaryCountDocuments: "pres execution (summaryCountDocuments P)"
  unfolding summaryCountDocuments_def by (rule exe_elsewhere) simp

lemma exe_summaryFind: "pres execution (summaryFind P)"
  unfolding summaryFind_def by (rule exe_elsewhere) simp

lemma exe_summaryFindOneAndUpdate: "pres execution (summaryFindOneAndUpdate P u)"
  unfolding summaryFindOneAndUpdate_def
  by (rule exe_elsewhere) (simp split: option.split)

lemma exe_summaryCreate: "pres execution (summaryCreate text uid stype title bid)"
  unfolding summaryCreate_def
  by (auto simp: Let_def intro!: pres_if exe_throw exe_elsewhere)

lemma exe_mixCreate: "pres execution (mixCreate m)"
  unfolding mixCreate_def by (rule exe_elsewhere) simp

lemma exe_sendAll: "pres execution (\<lambda>s. (Inr (), sendAll xs bid s))"
  by (rule presI) (simp add: execution_frame)

lemma exe_write: "codeWrite P u \<Longrightarrow> pres execution (batchFindOneAndUpdate P u)"
  by (rule presI) (blast intro: execution_atomic atomic.intros)

lemma exe_triggerAudioGeneration: "pres execution (triggerAudioGeneration bid)"
  unfolding triggerAudioGeneration_def
  by (intro exe_tryCatch exe_andThen exe_batchFindOne pres_if exe_ret
      exe_summaryFind exe_summaryCountDocuments exe_sendAll exe_throw)

lemma exe_markAudioRequested: "pres execution (markAudioRequested bid)"
  unfolding markAudioRequested_def
  by (intro exe_andThen exe_ret exe_write codeWrite.intros)

lemma exe_markAudioComplete: "pres execution (markAudioComplete bid)"
  unfolding markAudioComplete_def
  by (intro exe_andThen exe_ret exe_write codeWrite.intros)

lemma exe_checkBatchAudioCompletion: "pres execution (checkBatchAudioCompletion bid)"
  unfolding checkBatchAudioCompletion_def
  by (intro exe_tryCatch exe_andThen exe_batchFindOne pres_case_option exe_ret
        exe_summaryCountDocuments pres_if exe_logOnly exe_write codeWrite.intros)

lemma exe_handlePartialCompletion: "pres execution (handlePartialCompletion bid tr)"
  unfolding handlePartialCompletion_def
  by (intro exe_tryCatch exe_andThen pres_case_option exe_ret exe_logOnly
        exe_triggerAudioGeneration exe_markAudioRequested exe_write codeWrite.intros)

lemma exe_handleFullCompletion: "pres execution (handleFullCompletion bid tr)"
  unfolding handleFullCompletion_def
  by (intro exe_tryCatch exe_andThen pres_case_option pres_if exe_ret exe_logOnly
        exe_triggerAudioGeneration exe_markAudioRequested exe_write codeWrite.intros)

lemma exe_checkBatchCompletion: "pres execution (checkBatchCompletion bid)"
  unfolding checkBatchCompletion_def
  by (intro exe_tryCatch exe_andThen pres_case_option pres_if exe_ret exe_logOnly
        exe_summaryCountDocuments exe_handlePartialCompletion exe_handleFullCompletion
        exe_checkBatchAudioCompletion exe_write codeWrite.intros)

lemma exe_saveSummary: "pres execution (saveSummary text uid stype title bid)"
  unfolding saveSummary_def
  by (intro exe_tryCatch exe_andThen pres_if exe_ret exe_throw exe_summaryCreate
        exe_checkBatchCompletion)

lemma exe_handleSummaryAudioGenerationSuccess:
  "pres execution (handleSummaryAudioGenerationSuccess url uid sid bid)"
  unfolding handleSummaryAudioGenerationSuccess_def
  by (intro exe_tryCatch exe_andThen pres_case_option pres_if exe_ret exe_throw
        exe_summaryFindOneAndUpdate exe_readClock exe_mixCreate
        exe_checkBatchAudioCompletion)

lemma exe_handleAudioGenerationSuccess:
  "pres execution (handleAudioGenerationSuccess url uid bid)"
  unfolding handleAudioGenerationSuccess_def
  by (intro exe_tryCatch exe_andThen exe_ret exe_throw exe_readClock exe_mixCreate
        exe_write codeWrite.intros)

lemma exe_handleAudioGenerationFailure:
  "pres execution (handleAudioGenerationFailure bid msg uid)"
  unfolding handleAudioGenerationFailure_def
  by (intro exe_tryCatch exe_andThen exe_ret exe_throw exe_write codeWrite.intros)

lemma exe_handleTimeoutBatch: "pres execution (handleTimeoutBatch batch)"
  unfolding handleTimeoutBatch_def Let_def
  by (intro exe_tryCatch exe_logOnly pres_if pres_case_option exe_ret exe_andThen
        exe_summaryCountDocuments exe_triggerAudioGeneration exe_markAudioRequested
        exe_markAudioComplete exe_write codeWrite.intros)

lemma exe_processTimeoutBatches: "pres execution processTimeoutBatches"
  unfolding processTimeoutBatches_def
  by (intro exe_tryCatch exe_logOnly exe_andThen exe_readClock exe_batchFind exe_forEach
        exe_handleTimeoutBatch)

lemma exe_recoverFailedBatch: "pres execution (recoverFailedBatch batch n)"
  unfolding recoverFailedBatch_def Let_def
  by (intro exe_tryCatch exe_logOnly pres_if pres_case_option exe_ret exe_andThen
        exe_summaryCountDocuments exe_triggerAudioGeneration exe_markAudioRequested
        exe_markAudioComplete exe_write codeWrite.intros)

lemma exe_recoverIfOrphaned: "pres execution (recoverIfOrphaned batch)"
  unfolding recoverIfOrphaned_def
  by (intro exe_andThen exe_summaryCountDocuments pres_if exe_ret exe_recoverFailedBatch)

lemma exe_processOrphanedSummaries: "pres execution processOrphanedSummaries"
  unfolding processOrphanedSummaries_def
  by (intro exe_tryCatch exe_logOnly exe_andThen exe_batchFind exe_forEach
        exe_recoverIfOrphaned)

lemma exe_triggerPartialCompletion: "pres execution (triggerPartialCompletion batch)"
  unfolding triggerPartialCompletion_def
  by (intro exe_tryCatch exe_logOnly pres_if pres_case_option exe_ret exe_andThen
        exe_triggerAudioGeneration exe_markAudioRequested exe_write codeWrite.intros)

lemma exe_checkIfHalfComplete: "pres execution (checkIfHalfComplete batch)"
  unfolding checkIfHalfComplete_def
  by (intro pres_if exe_ret exe_triggerPartialCompletion)

lemma exe_checkPartialCompletionBatches: "pres execution checkPartialCompletionBatches"
  unfolding checkPartialCompletionBatches_def
  by (intro exe_tryCatch exe_logOnly exe_andThen exe_batchFind exe_forEach
        exe_checkIfHalfComplete)

lemma exe_getBatchStatistics: "pres execution getBatchStatistics"
  unfolding getBatchStatistics_def
  by (intro exe_tryCatch exe_ret exe_elsewhere) simp

lemma exe_runPeriodicMaintenance: "pres execution runPeriodicMaintenance"
  unfolding runPeriodicMaintenance_def
  by (intro exe_tryCatch exe_logOnly exe_andThen exe_ret exe_processTimeoutBatches
        exe_processOrphanedSummaries exe_checkPartialCompletionBatches
        exe_getBatchStatistics)

lemma execution_exec: "execution s (exec ev s)"
proof (cases ev)
  case (SummaryArrived body uid stype title bid)
  then show ?thesis
    using presD [OF exe_saveSummary] by (simp add: snd_handleSummaryWebhook)
next
  case (AudioSaved url uid bid sid)
  then show ?thesis
    using presD [OF exe_handleSummaryAudioGenerationSuccess]
      presD [OF exe_handleAudioGenerationSuccess]
    by (simp add: snd_handleSaveAudioUrl execution.start split: option.splits)
next
  case (AudioFailureReported bid msg uid)
  then show ?thesis
    using presD [OF exe_handleAudioGenerationFailure]
    by (simp add: snd_handleAudioGenerationFailureWebhook execution.start)
next
  case Maintenance
  then show ?thesis using presD [OF exe_runPeriodicMaintenance] by simp
next
  case (Elapse ms)
  then show ?thesis by (simp add: execution_frame)
qed

lemma execution_run: "execution s (run evs s)"
  by (induction evs arbitrary: s) (auto intro: execution.start execution_trans execution_exec)

lemma execution_stepProc: "execution s (snd (stepProc bid p s))"
proof (cases p)
  case AtUpdate
  have "pres execution (batchFindOneAndUpdate
             (\<lambda>b. batchId b = bid \<and> status b = Pending)
             (\<lambda>t b. b\<lparr>status := Partial_complete, partialCompletedAt := Some t\<rparr>))"
    by (intro exe_write codeWrite.intros)
  from presD [OF this, of s] AtUpdate show ?thesis
    by (auto split: prod.splits sum.splits option.splits)
next
  case AtStatusQuery
  moreover have "execution s
      (snd (batchFindOne (\<lambda>b. batchId b = bid) s))"
    by (rule presD) (rule exe_batchFindOne)
  ultimately show ?thesis
    by (auto split: prod.splits sum.splits option.splits)
next
  case AtFind
  moreover have "execution s
      (snd (summaryFind (\<lambda>x. summaryBatchId x = Some bid \<and> \<not> isAudioGenerated x) s))"
    by (rule presD) (rule exe_summaryFind)
  ultimately show ?thesis
    by (auto split: prod.splits sum.splits)
next
  case (AtCount found)
  moreover have "execution s
      (snd (summaryCountDocuments (\<lambda>x. summaryBatchId x = Some bid) s))"
    by (rule presD) (rule exe_summaryCountDocuments)
  ultimately show ?thesis by (auto split: prod.splits sum.splits)
next
  case (AtSend xs)
  then show ?thesis
    by (cases xs; cases "tl xs")
       (auto simp: sendIndividualSummaryForAudio_def delay_def intro: execution_frame
          execution.start)
next
  case AtMark
  moreover have "execution s (snd (markAudioRequested bid s))"
    by (rule presD) (rule exe_markAudioRequested)
  ultimately show ?thesis by simp
next
  case Won
  then show ?thesis by (simp add: execution.start)
next
  case Lost
  then show ?thesis by (simp add: execution.start)
qed

lemma execution_stepStage: "execution s (snd (stepStage bid v st s))"
proof (cases st)
  case CountAudio
  moreover have "execution s
      (snd (summaryCountDocuments (\<lambda>x. summaryBatchId x = Some bid \<and> isAudioGenerated x) s))"
    by (rule presD) (rule exe_summaryCountDocuments)
  ultimately show ?thesis
    by (auto split: prod.splits sum.splits)
next
  case (Partial p)
  with execution_stepProc [of s bid p] show ?thesis
    by (auto simp: execution.start split: prod.splits)
next
  case FullUpdate
  have "pres execution (batchFindOneAndUpdate
             (\<lambda>b. batchId b = bid \<and> status b = Pending)
             (\<lambda>t b. b\<lparr>status := Complete, completedAt := Some t\<rparr>))"
    by (intro exe_write codeWrite.intros)
  from presD [OF this, of s] FullUpdate show ?thesis
    by (auto split: prod.splits sum.splits option.splits)
next
  case (FullRest p)
  with execution_stepProc [of s bid p] show ?thesis
    by (auto simp: execution.start split: prod.splits)
next
  case CompleteUpdate
  have "pres execution (batchFindOneAndUpdate
             (\<lambda>b. batchId b = bid \<and> status b = Partial_complete)
             (\<lambda>t b. b\<lparr>status := Complete, completedAt := Some t\<rparr>))"
    by (intro exe_write codeWrite.intros)
  from presD [OF this, of s] CompleteUpdate show ?thesis
    by (auto split: prod.splits)
next
  case AudioQuery
  moreover have "execution s
      (snd (batchFindOne (\<lambda>b. batchId b = bid) s))"
    by (rule presD) (rule exe_batchFindOne)
  ultimately show ?thesis
    by (auto split: prod.splits sum.splits option.splits)
next
  case AudioTotal
  moreover have "execution s
      (snd (summaryCountDocuments (\<lambda>x. summaryBatchId x = Some bid) s))"
    by (rule presD) (rule exe_summaryCountDocuments)
  ultimately show ?thesis by (auto split: prod.splits sum.splits)
next
  case (AudioWith n)
  moreover have "execution s
      (snd (summaryCountDocuments (\<lambda>x. summaryBatchId x = Some bid \<and> isAudioGenerated x) s))"
    by (rule presD) (rule exe_summaryCountDocuments)
  ultimately show ?thesis
    by (auto split: prod.splits sum.splits)
next
  case AudioUpdate
  have "pres execution (batchFindOneAndUpdate
             (\<lambda>b. batchId b = bid \<and> status b \<noteq> Audio_complete)
             (\<lambda>t b. b\<lparr>status := Audio_complete, audioCompletedAt := Some t\<rparr>))"
    by (intro exe_write codeWrite.intros)
  from presD [OF this, of s] AudioUpdate show ?thesis
    by (auto split: prod.splits)
next
  case Finished
  then show ?thesis by (simp add: execution.start)
qed

lemma execution_stepAt: "execution (snd c) (snd (stepAt bid i c))"
proof (cases c)
  case (Pair vs t)
  show ?thesis
  proof (cases "i < length vs")
    case True
    obtain v' t' where e: "stepStage bid (vs ! i) (stage (vs ! i)) t = (v', t')"
      by (cases "stepStage bid (vs ! i) (stage (vs ! i)) t")
    from execution_stepStage [of t bid "vs ! i" "stage (vs ! i)"] e
    have "execution t t'" by simp
    with Pair True e show ?thesis by (simp add: stepAt_def)
  next
    case False
    with Pair show ?thesis by (simp add: stepAt_def execution.start)
  qed
qed

lemma execution_runSchedule: "execution (snd c) (snd (runSchedule bid sched c))"
proof (induction sched arbitrary: c)
  case Nil
  show ?case by (simp add: execution.start)
next
  case (Cons i sched)
  from execution_stepAt [of c bid i] Cons [of "stepAt bid i c"] show ?case
    by (auto intro: execution_trans)
qed


lemma permittedChange_listed:
  "permittedChange old new \<Longrightarrow>
   listedTransition old new \<or> new = Audio_requested \<or> new = Audio_complete \<or>
   new = Audio_failed"
  by (auto simp: permittedChange_def listedTransition_def terminal_def)

text \<open>
  C1, amended. Events handled one after the other (a webhook with what it calls, a
  maintenance sweep) make an execution, and so do invocations of the evaluator
  interleaved in any order; the handlers overlapping or not, what they do to the store
  is an execution.
  In an execution every change of status is one of: \<open>pending\<close> to \<open>partial_complete\<close>;
  \<open>pending\<close>, \<open>partial_complete\<close> or \<open>failed\<close> to \<open>complete\<close>; \<open>pending\<close> or
  \<open>partial_complete\<close> to \<open>failed\<close>; a change to \<open>audio_requested\<close>, to \<open>audio_complete\<close>
  or to \<open>audio_failed\<close>, whatever the status was. Store failures are part of the
  executions, and nothing is asked of the batch ids.
\<close>

theorem status_changes_of_an_execution:
  "execution s (run evs s) \<and>
   execution (snd c) (snd (runSchedule bid sched c)) \<and>
   (execution s s' \<longrightarrow>
      (\<exists>ext. transitions s' = transitions s @ ext \<and>
             (\<forall>x \<in> set ext. permittedChange (fst (snd x)) (snd (snd x)))))"
  using execution_run [of s evs] execution_runSchedule [of c bid sched]
    execution_changes [of s s']
  by blast

text \<open>
  An execution with two handlers overlapping: an invocation of the evaluator makes the
  batch \<open>partial_complete\<close> and sends the first of two units; while it waits before
  the next request, a failure report is handled; the invocation then sends the
  second unit and writes \<open>audio_requested\<close> over \<open>audio_failed\<close>.
\<close>

theorem status_changes_of_an_execution_witness:
  "execution
     (mkSys [mkBatch ''b1'' 4 2 Pending 1800000]
        [mkSummary 0 ''u1'' ''b1'' False, mkSummary 1 ''u2'' ''b1'' False] 5 [])
     (snd (runSchedule ''b1'' [0, 0, 0]
        (fst (runSchedule ''b1'' [0, 0, 0, 0, 0, 0]
                ([observing (mkBatch ''b1'' 4 2 Pending 1800000)],
                 mkSys [mkBatch ''b1'' 4 2 Pending 1800000]
                   [mkSummary 0 ''u1'' ''b1'' False, mkSummary 1 ''u2'' ''b1'' False] 5 [])),
         exec (AudioFailureReported (Some ''b1'') (Some ''tts down'') (Some ''u1''))
           (snd (runSchedule ''b1'' [0, 0, 0, 0, 0, 0]
                   ([observing (mkBatch ''b1'' 4 2 Pending 1800000)],
                    mkSys [mkBatch ''b1'' 4 2 Pending 1800000]
                      [mkSummary 0 ''u1'' ''b1'' False, mkSummary 1 ''u2'' ''b1'' False]
                      5 [])))))) \<and>
   transitions
     (snd (runSchedule ''b1'' [0, 0, 0]
        (fst (runSchedule ''b1'' [0, 0, 0, 0, 0, 0]
                ([observing (mkBatch ''b1'' 4 2 Pending 1800000)],
                 mkSys [mkBatch ''b1'' 4 2 Pending 1800000]
                   [mkSummary 0 ''u1'' ''b1'' False, mkSummary 1 ''u2'' ''b1'' False] 5 [])),
         exec (AudioFailureReported (Some ''b1'') (Some ''tts down'') (Some ''u1''))
           (snd (runSchedule ''b1'' [0, 0, 0, 0, 0, 0]
                   ([observing (mkBatch ''b1'' 4 2 Pending 1800000)],
                    mkSys [mkBatch ''b1'' 4 2 Pending 1800000]
                      [mkSummary 0 ''u1'' ''b1'' False, mkSummary 1 ''u2'' ''b1'' False]
                      5 []))))))
     = [(''b1'', Pending, Partial_complete), (''b1'', Partial_complete, Audio_failed),
        (''b1'', Audio_failed, Audio_requested)] \<and>
   permittedChange Pending Partial_complete \<and> permittedChange Partial_complete Audio_failed \<and>
   permittedChange Audio_failed Audio_requested"
proof -
  let ?s = "mkSys [mkBatch ''b1'' 4 2 Pending 1800000]
              [mkSummary 0 ''u1'' ''b1'' False, mkSummary 1 ''u2'' ''b1'' False] 5 []"
  let ?ev = "AudioFailureReported (Some ''b1'') (Some ''tts down'') (Some ''u1'')"
  define c1 where
    "c1 = runSchedule ''b1'' [0, 0, 0, 0, 0, 0]
            ([observing (mkBatch ''b1'' 4 2 Pending 1800000)], ?s)"
  define s1 where "s1 = exec ?ev (snd c1)"
  define c2 where "c2 = runSchedule ''b1'' [0, 0, 0] (fst c1, s1)"
  have "execution (snd ([observing (mkBatch ''b1'' 4 2 Pending 1800000)], ?s)) (snd c1)"
    unfolding c1_def by (rule execution_runSchedule)
  then have a: "execution ?s (snd c1)" by (simp only: snd_conv)
  have b: "execution (snd c1) s1"
    unfolding s1_def using status_changes_of_an_execution [of "snd c1" "[?ev]"] by simp
  have "execution (snd (fst c1, s1)) (snd c2)"
    unfolding c2_def by (rule execution_runSchedule)
  then have c: "execution s1 (snd c2)" by (simp only: snd_conv)
  have e: "execution ?s (snd c2)" using a b c by (blast intro: execution_trans)
  have t: "transitions (snd c2)
     = [(''b1'', Pending, Partial_complete), (''b1'', Partial_complete, Audio_failed),
        (''b1'', Audio_failed, Audio_requested)]"
    unfolding c2_def s1_def c1_def
    by (simp add: race_defs handleAudioGenerationFailureWebhook_def
        handleAudioGenerationFailure_def)
  have s0: "transitions ?s = []" by (simp add: mkSys_def)
  from status_changes_of_an_execution [of ?s _ _ _ _ "snd c2"] e obtain ext where
    x: "transitions (snd c2) = transitions ?s @ ext"
    "\<forall>x \<in> set ext. permittedChange (fst (snd x)) (snd (snd x))" by blast
  from x(1) t s0 have "ext = [(''b1'', Pending, Partial_complete),
        (''b1'', Partial_complete, Audio_failed), (''b1'', Audio_failed, Audio_requested)]"
    by simp
  with x(2) have "permittedChange Pending Partial_complete"
    "permittedChange Partial_complete Audio_failed"
    "permittedChange Audio_failed Audio_requested" by simp_all
  with e t show ?thesis unfolding c2_def s1_def c1_def by simp
qed

text \<open>
  C1, as stated: every change of status is a transition of the table. Changes that are
  not: a failure report on a pending batch makes it \<open>audio_failed\<close>; the audio of the
  only unit of a pending batch that expects four makes it \<open>audio_complete\<close>; and in the
  execution above the batch goes from \<open>partial_complete\<close> to \<open>audio_failed\<close> and from
  there to \<open>audio_requested\<close>.
\<close>

theorem unlisted_status_changes_counterexample:
  "transitions (exec (AudioFailureReported (Some ''b1'') (Some ''tts down'') (Some ''u1''))
                  (mkSys [mkBatch ''b1'' 4 1 Pending 1800000]
                     [mkSummary 0 ''u1'' ''b1'' False] 5 []))
     = [(''b1'', Pending, Audio_failed)] \<and>
   \<not> listedTransition Pending Audio_failed \<and>
   transitions (exec (AudioSaved (Some ''url'') (Some ''u1'') (Some ''b1'') (Some 0))
                  (mkSys [mkBatch ''b1'' 4 1 Pending 1800000]
                     [mkSummary 0 ''u1'' ''b1'' False] 5 []))
     = [(''b1'', Pending, Audio_complete)] \<and>
   \<not> listedTransition Pending Audio_complete \<and>
   transitions
     (snd (runSchedule ''b1'' [0, 0, 0]
        (fst (runSchedule ''b1'' [0, 0, 0, 0, 0, 0]
                ([observing (mkBatch ''b1'' 4 2 Pending 1800000)],
                 mkSys [mkBatch ''b1'' 4 2 Pending 1800000]
                   [mkSummary 0 ''u1'' ''b1'' False, mkSummary 1 ''u2'' ''b1'' False] 5 [])),
         exec (AudioFailureReported (Some ''b1'') (Some ''tts down'') (Some ''u1''))
           (snd (runSchedule ''b1'' [0, 0, 0, 0, 0, 0]
                   ([observing (mkBatch ''b1'' 4 2 Pending 1800000)],
                    mkSys [mkBatch ''b1'' 4 2 Pending 1800000]
                      [mkSummary 0 ''u1'' ''b1'' False, mkSummary 1 ''u2'' ''b1'' False]
                      5 []))))))
     = [(''b1'', Pending, Partial_complete), (''b1'', Partial_complete, Audio_failed),
        (''b1'', Audio_failed, Audio_requested)] \<and>
   \<not> listedTransition Partial_complete Audio_failed \<and>
   \<not> listedTransition Audio_failed Audio_requested"
  by (simp add: race_defs handleAudioGenerationFailureWebhook_def
      handleAudioGenerationFailure_def handleSaveAudioUrl_def
      handleSummaryAudioGenerationSuccess_def summaryFindOneAndUpdate_def mixCreate_def
      getMixInfoByTimeOfDay_def getHours_def listedTransition_def terminal_def)

end
